theory Spec2Isabelle
  imports Complex_Main "HOL-Library.Word" "HOL-Library.Log_Nat" "HOL-Library.Monad_Syntax"
begin

section \<open>TerraNurture irrigation controller\<close>

text \<open>
  A shallow embedding of \<^verbatim>\<open>TerraNurture_Irrigation_System.ino\<close>: the calibration mapper,
  the sensor, pump and WiFi tasks, the manual-pump HTTP handler and \<^verbatim>\<open>setup\<close>.

  Conventions of the model.
  \<^item> A C \<^verbatim>\<open>float\<close> or \<^verbatim>\<open>double\<close> value is the real number it denotes. Every conversion
    and every arithmetic operation rounds its exact result to the nearest number of 24
    (\<^verbatim>\<open>float\<close>) or 53 (\<^verbatim>\<open>double\<close>) significant bits, ties to the even significand, as
    IEEE 754 arithmetic does. The exponent range is not modelled (no overflow to an
    infinity, no subnormal numbers): the magnitudes that the mapper computes from 32-bit
    integers lie within the normal range of both formats. A float division by zero,
    whose IEEE result is an infinity or a NaN and no real number, is the value \<open>None\<close>.
  \<^item> The C \<^verbatim>\<open>int\<close> values of the sensor and of the calibration are 32-bit words, read as
    signed numbers by \<open>sint\<close>; their subtraction wraps around, which is what the two's
    complement hardware computes where C++ leaves the overflow undefined.
  \<^item> The counter \<^verbatim>\<open>retries\<close> of \<^verbatim>\<open>wifi_task\<close> is a mathematical integer: it grows by one
    for each failed poll, and the model is exact below \<open>2^31\<close> such polls in a row.
  \<^item> \<^verbatim>\<open>uint32_t\<close> and \<^verbatim>\<open>uint8_t\<close> are 32-bit and 8-bit words.
  \<^item> The calls of \<^verbatim>\<open>millis()\<close> made by one step all return its input \<open>now\<close> (the step
    takes no time), and a \<^verbatim>\<open>vTaskDelay\<close> of \<open>d\<close> milliseconds ends exactly \<open>d\<close> milliseconds
    after it began.
  \<^item> A task that would be put into the Blocked state by a queue call returns \<open>None\<close>.
  \<^item> \<^verbatim>\<open>xSemaphoreTake(xMutex, portMAX_DELAY)\<close> always returns \<^verbatim>\<open>pdTRUE\<close>: no task blocks
    inside a critical section, so a task that finds the mutex taken gets it after a
    finite wait. The two critical sections of \<^verbatim>\<open>pump_task\<close> are modelled statement by
    statement, with the flag \<open>mutex_held\<close> set between the take and the give, because
    \<^verbatim>\<open>handleGetState\<close> and \<^verbatim>\<open>broadcastState\<close> read \<^verbatim>\<open>pump_state\<close> without taking the mutex.
    The critical section of \<^verbatim>\<open>sensor_task\<close>, whose readers all take the mutex, is one
    atomic update.
  \<^item> Serial output (\<^verbatim>\<open>debug_log\<close>, \<^verbatim>\<open>Serial.printf\<close>) is not part of the state.
\<close>

subsection \<open>Configuration constants\<close>

definition ADC_PIN :: nat where "ADC_PIN = 34"
definition RELAY_PIN :: nat where "RELAY_PIN = 25"
definition RELAY_ACTIVE_HIGH :: bool where "RELAY_ACTIVE_HIGH = False"

definition DEFAULT_DRY_THRESHOLD :: real where "DEFAULT_DRY_THRESHOLD = 45"
definition DEFAULT_EXPECTED_VALUE :: real where "DEFAULT_EXPECTED_VALUE = 60"
definition DEFAULT_MAX_RETRIES :: "8 word" where "DEFAULT_MAX_RETRIES = 3"
definition DEFAULT_SAMPLING_INTERVAL :: "32 word" where "DEFAULT_SAMPLING_INTERVAL = 3000"
definition DEFAULT_ADC_DRY :: "32 word" where "DEFAULT_ADC_DRY = 4095"
definition DEFAULT_ADC_WET :: "32 word" where "DEFAULT_ADC_WET = 1500"

definition LOG_QUEUE_SIZE :: nat where "LOG_QUEUE_SIZE = 50"

subsection \<open>Global state\<close>

text \<open>
  The fields of \<^verbatim>\<open>LogEntry\<close> that share a name with a field of \<^verbatim>\<open>SensorReading\<close> carry the
  prefix \<open>entry_\<close>.
\<close>

record LogEntry =
  entry_timestamp :: "32 word"
  entry_raw_adc :: "32 word"
  percentage :: real
  event :: string
  details :: string

record SensorReading =
  moisture :: real
  timestamp :: "32 word"
  valid :: bool
  raw_adc :: "32 word"

record PumpState =
  pump_active :: bool
  retry_count :: "8 word"
  status :: string
  last_change :: "32 word"

record SystemConfig =
  dry_threshold :: real
  expected_value :: real
  max_retries :: "8 word"
  sampling_interval :: "32 word"
  adc_dry :: "32 word"
  adc_wet :: "32 word"

subsection \<open>Floating-point rounding\<close>

text \<open>
  The exponent of a real number \<open>x \<noteq> 0\<close>: the integer \<open>e\<close> with \<open>2^e \<le> \<bar>x\<bar> < 2^(e+1)\<close>,
  computed from the bit length of an integer.
\<close>

definition float_exponent :: "real \<Rightarrow> int" where
  "float_exponent x =
     (if 1 \<le> \<bar>x\<bar> then bitlen \<lfloor>\<bar>x\<bar>\<rfloor> - 1 else - bitlen (\<lceil>1 / \<bar>x\<bar>\<rceil> - 1))"

text \<open>Rounding to the nearest integer, a tie going to the even one.\<close>

definition round_even :: "real \<Rightarrow> int" where
  "round_even x =
     (if x - of_int \<lfloor>x\<rfloor> < 1 / 2 then \<lfloor>x\<rfloor>
      else if 1 / 2 < x - of_int \<lfloor>x\<rfloor> then \<lfloor>x\<rfloor> + 1
      else if even \<lfloor>x\<rfloor> then \<lfloor>x\<rfloor> else \<lfloor>x\<rfloor> + 1)"

text \<open>Rounding to \<open>p\<close> significant bits: the significand is an integer below \<open>2^p\<close>.\<close>

definition round_to :: "nat \<Rightarrow> real \<Rightarrow> real" where
  "round_to p x =
     (if x = 0 then 0
      else of_int (round_even (x / 2 powi (float_exponent x - int p + 1)))
           * 2 powi (float_exponent x - int p + 1))"

definition to_float :: "real \<Rightarrow> real" where
  "to_float = round_to 24"

definition to_double :: "real \<Rightarrow> real" where
  "to_double = round_to 53"

text \<open>The conversion \<^verbatim>\<open>(float)n\<close> of an \<^verbatim>\<open>int\<close>.\<close>

definition int_to_float :: "32 word \<Rightarrow> real" where
  "int_to_float n = to_float (real_of_int (sint n))"

subsection \<open>Calibration mapper\<close>

text \<open>
  Modelled from the spec: the Arduino core macro \<^verbatim>\<open>constrain(amt, low, high)\<close> is not part of
  the sources; the spec reads it as "clamped to \<open>[0,100]\<close>". The definition is the macro
  \<^verbatim>\<open>((amt)<(low)?(low):((amt)>(high)?(high):(amt)))\<close>.
\<close>

definition constrain :: "real \<Rightarrow> real \<Rightarrow> real \<Rightarrow> real" where
  "constrain amt low high = (if amt < low then low else if amt > high then high else amt)"

text \<open>
  Division of two \<^verbatim>\<open>float\<close> values: \<open>None\<close> where the divisor is zero (no real number
  results), and the rounded quotient otherwise.
\<close>

definition float_div :: "real \<Rightarrow> real \<Rightarrow> real option" where
  "float_div a b = (if b = 0 then None else Some (to_float (a / b)))"

text \<open>
  \<^verbatim>\<open>map_adc_to_percentage\<close> reads the global \<^verbatim>\<open>config\<close>, here its first argument. Its four
  tests either return at once (\<open>Inl\<close>) or reach the last statement with the two
  \<^verbatim>\<open>int\<close> differences \<^verbatim>\<open>raw - config.adc_wet\<close> and \<^verbatim>\<open>config.adc_dry - config.adc_wet\<close> (\<open>Inr\<close>).
\<close>

definition map_adc_operands :: "SystemConfig \<Rightarrow> 32 word \<Rightarrow> real + 32 word \<times> 32 word" where
  "map_adc_operands cfg raw =
     (if sint raw < 0 \<or> sint raw > 4095 then Inl 0
      else if sint (adc_dry cfg) \<le> sint (adc_wet cfg) then Inl 0
      else if sint raw \<le> sint (adc_wet cfg) then Inl 100
      else if sint raw \<ge> sint (adc_dry cfg) then Inl 0
      else Inr (raw - adc_wet cfg, adc_dry cfg - adc_wet cfg))"

text \<open>
  The last statement,
  \<^verbatim>\<open>float percentage = 100.0 * (1.0 - (float)(raw - wet) / (float)(dry - wet))\<close>, followed by
  \<^verbatim>\<open>return constrain(percentage, 0.0, 100.0)\<close>: the quotient is a \<^verbatim>\<open>float\<close>, the difference
  and the product with the \<^verbatim>\<open>double\<close> literals are \<^verbatim>\<open>double\<close>, and the assignment converts
  to \<^verbatim>\<open>float\<close>.
\<close>

definition interpolate :: "32 word \<Rightarrow> 32 word \<Rightarrow> real option" where
  "interpolate num den = do {
     q \<leftarrow> float_div (int_to_float num) (int_to_float den);
     let pct = to_float (to_double (100 * to_double (1 - q)));
     Some (constrain pct 0 100)
   }"

definition map_adc_to_percentage :: "SystemConfig \<Rightarrow> 32 word \<Rightarrow> real option" where
  "map_adc_to_percentage cfg raw =
     (case map_adc_operands cfg raw of
        Inl v \<Rightarrow> Some v
      | Inr (num, den) \<Rightarrow> interpolate num den)"

subsection \<open>FreeRTOS queues\<close>

text \<open>
  Modelled from the spec: the FreeRTOS queue primitives \<^verbatim>\<open>xQueueCreate\<close>, \<^verbatim>\<open>xQueueSend\<close> and
  \<^verbatim>\<open>xQueueReceive\<close> are library code, missing from the sources. The spec has bounded
  first-in first-out queues, an enqueue that does not block and drops the item on a full
  queue, a poll that does not block, and a receive that waits. In the FreeRTOS contract
  the last argument of a call is the time it may wait, in ticks: a queue is its stored
  items, oldest first, and the length it was created with;
  \<^verbatim>\<open>xQueueSend(q, &item, ticks)\<close> copies the item to the back when there is room; on a full
  queue it returns \<^verbatim>\<open>errQUEUE_FULL\<close> at once when \<open>ticks\<close> is 0 and otherwise puts the caller
  into the Blocked state. \<^verbatim>\<open>xQueueReceive(q, &item, ticks)\<close> removes the front item; on an
  empty queue it returns \<^verbatim>\<open>pdFALSE\<close> at once when \<open>ticks\<close> is 0 and otherwise blocks the
  caller.
\<close>

record 'a queue =
  items :: "'a list"
  capacity :: nat

datatype 'a sent = Posted "'a queue" | Dropped | Send_Waits

datatype 'a received = Received 'a "'a queue" | Nothing | Receive_Waits

definition portMAX_DELAY :: nat where "portMAX_DELAY = 4294967295"

definition xQueueCreate :: "nat \<Rightarrow> 'a queue" where
  "xQueueCreate n = \<lparr>items = [], capacity = n\<rparr>"

definition xQueueSend :: "'a queue \<Rightarrow> 'a \<Rightarrow> nat \<Rightarrow> 'a sent" where
  "xQueueSend q item ticks =
     (if length (items q) < capacity q then Posted (q\<lparr>items := items q @ [item]\<rparr>)
      else if ticks = 0 then Dropped
      else Send_Waits)"

definition xQueueReceive :: "'a queue \<Rightarrow> nat \<Rightarrow> 'a received" where
  "xQueueReceive q ticks =
     (case items q of
        item # rest \<Rightarrow> Received item (q\<lparr>items := rest\<rparr>)
      | [] \<Rightarrow> if ticks = 0 then Nothing else Receive_Waits)"

subsection \<open>The system\<close>

datatype level = LOW | HIGH

datatype pin_mode = INPUT | OUTPUT

text \<open>
  The globals of the sketch, the relay output (\<open>None\<close> until the first \<^verbatim>\<open>digitalWrite\<close>),
  the pin modes set so far, the names of the tasks created so far, and \<open>retries\<close>, the
  local counter of \<^verbatim>\<open>wifi_task\<close> (initialised to 0 when the task starts). \<open>xMutex\<close> tells
  whether the mutex has been created, \<open>mutex_held\<close> whether a task holds it.
\<close>

record system =
  current_reading :: SensorReading
  pump_state :: PumpState
  config :: SystemConfig
  wifi_connected :: bool
  xMutex :: bool
  mutex_held :: bool
  log_queue :: "LogEntry queue"
  pump_command_queue :: "bool queue"
  relay_pin :: "level option"
  pin_modes :: "(nat \<times> pin_mode) list"
  tasks :: "string list"
  retries :: int

text \<open>
  The static initialisers of the globals. The two queue handles are \<^verbatim>\<open>NULL\<close> until
  \<^verbatim>\<open>setup\<close> creates the queues; here they are queues that hold nothing.
\<close>

definition power_on :: system where
  "power_on =
     \<lparr>current_reading = \<lparr>moisture = 0, timestamp = 0, valid = False, raw_adc = 0\<rparr>,
      pump_state = \<lparr>pump_active = False, retry_count = 0, status = ''IDLE'', last_change = 0\<rparr>,
      config = \<lparr>dry_threshold = DEFAULT_DRY_THRESHOLD, expected_value = DEFAULT_EXPECTED_VALUE,
                max_retries = DEFAULT_MAX_RETRIES, sampling_interval = DEFAULT_SAMPLING_INTERVAL,
                adc_dry = DEFAULT_ADC_DRY, adc_wet = DEFAULT_ADC_WET\<rparr>,
      wifi_connected = False,
      xMutex = False,
      mutex_held = False,
      log_queue = \<lparr>items = [], capacity = 0\<rparr>,
      pump_command_queue = \<lparr>items = [], capacity = 0\<rparr>,
      relay_pin = None,
      pin_modes = [],
      tasks = [],
      retries = 0\<rparr>"

text \<open>
  Modelled from the spec: \<^verbatim>\<open>pinMode\<close> and \<^verbatim>\<open>digitalWrite\<close> are Arduino library calls, missing
  from the sources; the spec has one digital output write with two logic levels. The
  only output pin the sketch writes is the relay pin.
\<close>

definition pinMode :: "nat \<Rightarrow> pin_mode \<Rightarrow> system \<Rightarrow> system" where
  "pinMode pin m s = s\<lparr>pin_modes := (pin, m) # pin_modes s\<rparr>"

definition digitalWrite :: "nat \<Rightarrow> level \<Rightarrow> system \<Rightarrow> system" where
  "digitalWrite pin lvl s = (if pin = RELAY_PIN then s\<lparr>relay_pin := Some lvl\<rparr> else s)"

text \<open>\<^verbatim>\<open>xQueueSend(log_queue, &entry, ticks)\<close> and \<^verbatim>\<open>xQueueSend(pump_command_queue, &command, ticks)\<close>.\<close>

definition send_log :: "LogEntry \<Rightarrow> nat \<Rightarrow> system \<Rightarrow> system option" where
  "send_log entry ticks s =
     (case xQueueSend (log_queue s) entry ticks of
        Posted q \<Rightarrow> Some (s\<lparr>log_queue := q\<rparr>)
      | Dropped \<Rightarrow> Some s
      | Send_Waits \<Rightarrow> None)"

definition send_command :: "bool \<Rightarrow> nat \<Rightarrow> system \<Rightarrow> system option" where
  "send_command command ticks s =
     (case xQueueSend (pump_command_queue s) command ticks of
        Posted q \<Rightarrow> Some (s\<lparr>pump_command_queue := q\<rparr>)
      | Dropped \<Rightarrow> Some s
      | Send_Waits \<Rightarrow> None)"

subsection \<open>Sensor task\<close>

text \<open>
  One pass through the loop body of \<^verbatim>\<open>sensor_task\<close>, up to its closing \<^verbatim>\<open>vTaskDelay\<close>:
  \<open>raw\<close> is the value of \<^verbatim>\<open>analogRead(ADC_PIN)\<close>, \<open>now\<close> that of \<^verbatim>\<open>millis()\<close>.
\<close>

definition sensor_task_cycle :: "32 word \<Rightarrow> 32 word \<Rightarrow> system \<Rightarrow> system option" where
  "sensor_task_cycle now raw s = do {
     let sensor_connected = (sint raw > 100 \<and> sint raw < 4000);
     pct \<leftarrow> map_adc_to_percentage (config s) raw;
     let r = (if sensor_connected
              then (current_reading s)\<lparr>moisture := pct, valid := True\<rparr>
              else (current_reading s)\<lparr>moisture := 0, valid := False\<rparr>);
     let s1 = s\<lparr>current_reading := r\<lparr>timestamp := now, raw_adc := raw\<rparr>\<rparr>;
     let entry = \<lparr>entry_timestamp = now, entry_raw_adc = raw, percentage = pct,
                  event = ''SENSOR_READ'',
                  details = (if sensor_connected then ''OK'' else ''DISCONNECTED'')\<rparr>;
     send_log entry 0 s1
   }"

subsection \<open>HTTP handlers\<close>

datatype json = JString string | JNumber "32 word" | JBool bool

record http_response =
  code :: nat
  content_type :: string
  body :: "(string \<times> json) list"

definition handleManualPump :: "32 word \<Rightarrow> system \<Rightarrow> (http_response \<times> system) option" where
  "handleManualPump now s = do {
     let command = True;
     s1 \<leftarrow> send_command command 0 s;
     let doc = [(''status'', JString ''manual_pump_triggered''), (''timestamp'', JNumber now)];
     Some (\<lparr>code = 200, content_type = ''application/json'', body = doc\<rparr>, s1)
   }"

text \<open>
  The object \<^verbatim>\<open>doc["pump"]\<close> that \<^verbatim>\<open>handleGetState\<close> builds, and \<^verbatim>\<open>broadcastState\<close> likewise:
  the four fields of \<^verbatim>\<open>pump_state\<close>, read one after the other without taking the mutex.
\<close>

definition handleGetState_pump :: "system \<Rightarrow> (string \<times> json) list" where
  "handleGetState_pump s =
     [(''active'', JBool (pump_active (pump_state s))),
      (''status'', JString (status (pump_state s))),
      (''retry_count'', JNumber (ucast (retry_count (pump_state s)))),
      (''last_change'', JNumber (last_change (pump_state s)))]"

subsection \<open>WiFi task\<close>

text \<open>
  One pass through the loop body of \<^verbatim>\<open>wifi_task\<close>: \<open>link_up\<close> is
  \<^verbatim>\<open>WiFi.status() == WL_CONNECTED\<close>. The result carries \<^verbatim>\<open>delay_ms\<close>, the backoff slept before
  the reconnection attempt, when the pass makes one. \<^verbatim>\<open>1 << n\<close> is \<open>push_bit n 1\<close>.
\<close>

definition wifi_task_iteration :: "32 word \<Rightarrow> bool \<Rightarrow> system \<Rightarrow> (int option \<times> system) option" where
  "wifi_task_iteration now link_up s =
     (if link_up then do {
        s1 \<leftarrow> (if \<not> wifi_connected s
               then send_log \<lparr>entry_timestamp = now, entry_raw_adc = 0, percentage = 0,
                               event = ''WIFI_CONNECTED'', details = []\<rparr> 0
                             (s\<lparr>wifi_connected := True\<rparr>)
               else Some s);
        Some (None, s1\<lparr>retries := 0\<rparr>)
      } else do {
        s1 \<leftarrow> (if wifi_connected s
               then send_log \<lparr>entry_timestamp = now, entry_raw_adc = 0, percentage = 0,
                               event = ''WIFI_DISCONNECTED'', details = []\<rparr> 0
                             (s\<lparr>wifi_connected := False\<rparr>)
               else Some s);
        let s2 = s1\<lparr>retries := retries s1 + 1\<rparr>;
        let delay_ms = min (1000 * push_bit (nat (min (retries s2) 6)) 1) 30000;
        Some (Some delay_ms, s2)
      })"

text \<open>The loop, over the link status seen at each pass; it collects the backoff delays.\<close>

fun wifi_task :: "(32 word \<times> bool) list \<Rightarrow> system \<Rightarrow> (int list \<times> system) option" where
  "wifi_task [] s = Some ([], s)"
| "wifi_task ((now, link_up) # polls) s = do {
     (d, s1) \<leftarrow> wifi_task_iteration now link_up s;
     (ds, s2) \<leftarrow> wifi_task polls s1;
     Some ((case d of None \<Rightarrow> ds | Some delay_ms \<Rightarrow> delay_ms # ds), s2)
   }"

subsection \<open>Logger task\<close>

text \<open>One pass of \<^verbatim>\<open>logger_task\<close>: the entry taken is printed and appended to the log file.\<close>

definition logger_task_iteration :: "system \<Rightarrow> system option" where
  "logger_task_iteration s =
     (case xQueueReceive (log_queue s) portMAX_DELAY of
        Received entry q \<Rightarrow> Some (s\<lparr>log_queue := q\<rparr>)
      | Nothing \<Rightarrow> Some s
      | Receive_Waits \<Rightarrow> None)"

subsection \<open>What the other tasks do while one task sleeps\<close>

datatype env_event =
    Http_manual_pump "32 word"
  | Sensor_sample "32 word" "32 word"
  | Wifi_poll "32 word" bool
  | Logger_take

text \<open>A logger that finds the queue empty stays blocked and changes nothing.\<close>

fun env_step :: "env_event \<Rightarrow> system \<Rightarrow> system option" where
  "env_step (Http_manual_pump now) s = map_option snd (handleManualPump now s)"
| "env_step (Sensor_sample now raw) s = sensor_task_cycle now raw s"
| "env_step (Wifi_poll now link_up) s = map_option snd (wifi_task_iteration now link_up s)"
| "env_step Logger_take s = (case logger_task_iteration s of None \<Rightarrow> Some s | Some s1 \<Rightarrow> Some s1)"

fun other_tasks :: "env_event list \<Rightarrow> system \<Rightarrow> system option" where
  "other_tasks [] s = Some s"
| "other_tasks (e # es) s = env_step e s \<bind> other_tasks es"

text \<open>
  \<^verbatim>\<open>vTaskDelay(pdMS_TO_TICKS(ms))\<close> begun at \<open>now\<close>: the other tasks run, and the caller
  wakes at \<open>now + ms\<close>.
\<close>

definition vTaskDelay :: "32 word \<Rightarrow> nat \<Rightarrow> env_event list \<Rightarrow> system \<Rightarrow> (32 word \<times> system) option" where
  "vTaskDelay now ms others s = map_option (Pair (now + of_nat ms)) (other_tasks others s)"

subsection \<open>Pump task\<close>

text \<open>A sequence of statements, each of which may block.\<close>

fun run_steps :: "(system \<Rightarrow> system option) list \<Rightarrow> system \<Rightarrow> system option" where
  "run_steps [] s = Some s"
| "run_steps (f # fs) s = f s \<bind> run_steps fs"

definition xSemaphoreTake :: "system \<Rightarrow> system" where
  "xSemaphoreTake s = s\<lparr>mutex_held := True\<rparr>"

definition xSemaphoreGive :: "system \<Rightarrow> system" where
  "xSemaphoreGive s = s\<lparr>mutex_held := False\<rparr>"

text \<open>
  The activation half of a manual cycle, statement by statement: the log entry is built
  and sent, the relay is switched on, and the three fields of \<^verbatim>\<open>pump_state\<close> are written
  one after the other between the take and the give of the mutex.
\<close>

definition pump_start_steps :: "32 word \<Rightarrow> (system \<Rightarrow> system option) list" where
  "pump_start_steps now =
     [\<lambda>s. send_log \<lparr>entry_timestamp = now, entry_raw_adc = raw_adc (current_reading s),
                     percentage = moisture (current_reading s),
                     event = ''PUMP_MANUAL_START'', details = ''Manual activation''\<rparr> 0 s,
      Some \<circ> digitalWrite RELAY_PIN (if RELAY_ACTIVE_HIGH then HIGH else LOW),
      Some \<circ> xSemaphoreTake,
      \<lambda>s. Some (s\<lparr>pump_state := (pump_state s)\<lparr>pump_active := True\<rparr>\<rparr>),
      \<lambda>s. Some (s\<lparr>pump_state := (pump_state s)\<lparr>last_change := now\<rparr>\<rparr>),
      \<lambda>s. Some (s\<lparr>pump_state := (pump_state s)\<lparr>status := ''MANUAL''\<rparr>\<rparr>),
      Some \<circ> xSemaphoreGive]"

text \<open>The deactivation half: relay off, the three writes under the mutex, the log entry.\<close>

definition pump_stop_steps :: "32 word \<Rightarrow> (system \<Rightarrow> system option) list" where
  "pump_stop_steps now =
     [Some \<circ> digitalWrite RELAY_PIN (if RELAY_ACTIVE_HIGH then LOW else HIGH),
      Some \<circ> xSemaphoreTake,
      \<lambda>s. Some (s\<lparr>pump_state := (pump_state s)\<lparr>pump_active := False\<rparr>\<rparr>),
      \<lambda>s. Some (s\<lparr>pump_state := (pump_state s)\<lparr>last_change := now\<rparr>\<rparr>),
      \<lambda>s. Some (s\<lparr>pump_state := (pump_state s)\<lparr>status := ''IDLE''\<rparr>\<rparr>),
      Some \<circ> xSemaphoreGive,
      \<lambda>s. send_log \<lparr>entry_timestamp = now, entry_raw_adc = raw_adc (current_reading s),
                     percentage = moisture (current_reading s),
                     event = ''PUMP_MANUAL_STOP'', details = ''Manual completed''\<rparr> 0 s]"

definition pump_start :: "32 word \<Rightarrow> system \<Rightarrow> system option" where
  "pump_start now s = run_steps (pump_start_steps now) s"

definition pump_stop :: "32 word \<Rightarrow> system \<Rightarrow> system option" where
  "pump_stop now s = run_steps (pump_stop_steps now) s"

text \<open>
  The statements of one manual cycle begun at \<open>now\<close>, from the activation to the stop
  entry: \<open>dwell\<close> is what the other tasks do during \<^verbatim>\<open>vTaskDelay(pdMS_TO_TICKS(5000))\<close>. A state
  after a prefix of these statements is a state that the other core can observe.
\<close>

definition pump_cycle_steps :: "32 word \<Rightarrow> env_event list \<Rightarrow> (system \<Rightarrow> system option) list" where
  "pump_cycle_steps now dwell =
     pump_start_steps now @ [other_tasks dwell] @ pump_stop_steps (now + 5000)"

text \<open>
  One pass through the loop body of \<^verbatim>\<open>pump_task\<close>, begun at \<open>now\<close>: \<open>dwell\<close> is what the
  other tasks do during \<^verbatim>\<open>vTaskDelay(pdMS_TO_TICKS(5000))\<close> and \<open>idle\<close> what they do during
  the closing \<^verbatim>\<open>vTaskDelay(pdMS_TO_TICKS(100))\<close>. The result carries the time of waking.
\<close>

definition pump_task_iteration ::
  "32 word \<Rightarrow> env_event list \<Rightarrow> env_event list \<Rightarrow> system \<Rightarrow> (32 word \<times> system) option" where
  "pump_task_iteration now dwell idle s =
     (case xQueueReceive (pump_command_queue s) 0 of
        Receive_Waits \<Rightarrow> None
      | Nothing \<Rightarrow> vTaskDelay now 100 idle s
      | Received command q \<Rightarrow>
          if command then do {
            s1 \<leftarrow> pump_start now (s\<lparr>pump_command_queue := q\<rparr>);
            (t, s2) \<leftarrow> vTaskDelay now 5000 dwell s1;
            s3 \<leftarrow> pump_stop t s2;
            vTaskDelay t 100 idle s3
          } else vTaskDelay now 100 idle (s\<lparr>pump_command_queue := q\<rparr>))"

fun pump_task :: "32 word \<Rightarrow> (env_event list \<times> env_event list) list \<Rightarrow> system \<Rightarrow> (32 word \<times> system) option" where
  "pump_task now [] s = Some (now, s)"
| "pump_task now ((dwell, idle) # rest) s = do {
     (t, s1) \<leftarrow> pump_task_iteration now dwell idle s;
     pump_task t rest s1
   }"

subsection \<open>Setup\<close>

text \<open>
  Modelled from the spec: \<^verbatim>\<open>xTaskCreatePinnedToCore\<close> is library code, missing from the sources;
  here it records the name of the task it creates.
\<close>

definition xTaskCreatePinnedToCore :: "string \<Rightarrow> system \<Rightarrow> system" where
  "xTaskCreatePinnedToCore name s = s\<lparr>tasks := tasks s @ [name]\<rparr>"

text \<open>The calls of \<^verbatim>\<open>setup\<close> that touch the state, in the order of the source.\<close>

definition setup_sequence :: "32 word \<Rightarrow> (system \<Rightarrow> system option) list" where
  "setup_sequence now =
     [Some \<circ> pinMode ADC_PIN INPUT,
      Some \<circ> pinMode RELAY_PIN OUTPUT,
      Some \<circ> digitalWrite RELAY_PIN (if RELAY_ACTIVE_HIGH then LOW else HIGH),
      Some \<circ> xMutex_update (\<lambda>_. True),
      Some \<circ> log_queue_update (\<lambda>_. xQueueCreate LOG_QUEUE_SIZE),
      Some \<circ> pump_command_queue_update (\<lambda>_. xQueueCreate 5),
      Some \<circ> xTaskCreatePinnedToCore ''WiFi'',
      Some \<circ> xTaskCreatePinnedToCore ''Sensor'',
      Some \<circ> xTaskCreatePinnedToCore ''Pump'',
      Some \<circ> xTaskCreatePinnedToCore ''Web'',
      Some \<circ> xTaskCreatePinnedToCore ''Logger'',
      send_log \<lparr>entry_timestamp = now, entry_raw_adc = 0, percentage = 0,
                 event = ''SYSTEM_STARTED'', details = ''System initialized''\<rparr> 0]"

text \<open>\<^verbatim>\<open>setup()\<close>, with \<open>now\<close> the value of its call of \<^verbatim>\<open>millis()\<close>.\<close>

definition setup_fn :: "32 word \<Rightarrow> system \<Rightarrow> system option" where
  "setup_fn now s = run_steps (setup_sequence now) s"

subsection \<open>Observations used by the statements\<close>

definition log_events :: "system \<Rightarrow> string list" where
  "log_events s = map event (items (log_queue s))"

definition count_event :: "string \<Rightarrow> system \<Rightarrow> nat" where
  "count_event name s = length (filter (\<lambda>e. e = name) (log_events s))"

definition pending_commands :: "system \<Rightarrow> bool list" where
  "pending_commands s = items (pump_command_queue s)"

definition relay_energized :: level where
  "relay_energized = (if RELAY_ACTIVE_HIGH then HIGH else LOW)"

definition relay_deenergized :: level where
  "relay_deenergized = (if RELAY_ACTIVE_HIGH then LOW else HIGH)"

definition manual_requests :: "env_event list \<Rightarrow> nat" where
  "manual_requests es = length (filter (\<lambda>e. case e of Http_manual_pump _ \<Rightarrow> True | _ \<Rightarrow> False) es)"

text \<open>The state with the front command taken from the pump command queue.\<close>

definition command_taken :: "system \<Rightarrow> system" where
  "command_taken s = s\<lparr>pump_command_queue := (pump_command_queue s)\<lparr>items := tl (pending_commands s)\<rparr>\<rparr>"

text \<open>The state with the entry of a pump start at \<open>now\<close> appended to the log, if there is room.\<close>

definition start_logged :: "32 word \<Rightarrow> system \<Rightarrow> system" where
  "start_logged now s =
     (if length (items (log_queue s)) < capacity (log_queue s)
      then s\<lparr>log_queue := (log_queue s)\<lparr>items := items (log_queue s) @
              [\<lparr>entry_timestamp = now, entry_raw_adc = raw_adc (current_reading s),
                percentage = moisture (current_reading s),
                event = ''PUMP_MANUAL_START'', details = ''Manual activation''\<rparr>]\<rparr>\<rparr>
      else s)"

text \<open>
  The result of the last statement of the mapper on a rounded quotient \<open>q\<close>, and the
  interpolation of the specification, computed in the real numbers.
\<close>

definition pct_of :: "real \<Rightarrow> real" where
  "pct_of q = constrain (to_float (to_double (100 * to_double (1 - q)))) 0 100"

definition linear_interpolation :: "int \<Rightarrow> int \<Rightarrow> int \<Rightarrow> real" where
  "linear_interpolation raw wetRef dryRef =
     constrain (100 * (1 - real_of_int (raw - wetRef) / real_of_int (dryRef - wetRef))) 0 100"

subsection \<open>Concrete states\<close>

text \<open>The state in which \<^verbatim>\<open>setup()\<close>, run at time 0 on the power-on state, leaves the system.\<close>

definition booted :: system where
  "booted = power_on
     \<lparr>xMutex := True,
      log_queue := \<lparr>items = [\<lparr>entry_timestamp = 0, entry_raw_adc = 0, percentage = 0,
                               event = ''SYSTEM_STARTED'', details = ''System initialized''\<rparr>],
                    capacity = 50\<rparr>,
      pump_command_queue := \<lparr>items = [], capacity = 5\<rparr>,
      relay_pin := Some HIGH,
      pin_modes := [(25, OUTPUT), (34, INPUT)],
      tasks := [''WiFi'', ''Sensor'', ''Pump'', ''Web'', ''Logger'']\<rparr>"

text \<open>
  A configuration whose calibration references are 32-bit integers 4000000000 apart, as
  \<^verbatim>\<open>loadConfig\<close> accepts them from the configuration file.
\<close>

definition wide_calibration :: SystemConfig where
  "wide_calibration = (config power_on)\<lparr>adc_dry := 2000000000, adc_wet := - 2000000000\<rparr>"

text \<open>The booted system with its log queue full.\<close>

definition log_full :: system where
  "log_full = booted\<lparr>log_queue := \<lparr>items = replicate 50 (hd (items (log_queue booted))), capacity = 50\<rparr>\<rparr>"

text \<open>
  After \<^verbatim>\<open>setup()\<close> a manual-pump request arrives at 900 ms; \<^verbatim>\<open>pump_task\<close> polls at 1000 ms
  and activates; a second request arrives at 3000 ms, during the dwell that ends at
  6000 ms; \<^verbatim>\<open>pump_task\<close> polls again at 6100 ms, and no further request is made.
\<close>

definition second_command_scenario :: "(32 word \<times> system) option" where
  "second_command_scenario = do {
     s0 \<leftarrow> setup_fn 0 power_on;
     s1 \<leftarrow> env_step (Http_manual_pump 900) s0;
     pump_task 1000 [([Http_manual_pump 3000], []), ([], [])] s1
   }"

section \<open>Properties of the rounding\<close>

lemma two_powi_neg:
  fixes n :: int
  assumes "0 \<le> n"
  shows "(2::real) powi (- n) = 1 / 2 ^ nat n"
  using assms by (simp add: power_int_minus_divide power_int_nonneg_exp)

lemma float_exponent_bounds:
  assumes "x \<noteq> 0"
  shows "2 powi float_exponent x \<le> \<bar>x\<bar>" and "\<bar>x\<bar> < 2 powi (float_exponent x + 1)"
proof -
  have "2 powi float_exponent x \<le> \<bar>x\<bar> \<and> \<bar>x\<bar> < 2 powi (float_exponent x + 1)"
  proof (cases "1 \<le> \<bar>x\<bar>")
    case True
    define m where "m = \<lfloor>\<bar>x\<bar>\<rfloor>"
    from True have m: "0 < m" by (simp add: m_def)
    have e: "float_exponent x = bitlen m - 1"
      using True by (simp add: float_exponent_def m_def)
    from m have b1: "1 \<le> bitlen m" by (auto simp: bitlen_alt_def)
    from bitlen_bounds [OF m] have lo: "2 ^ nat (bitlen m - 1) \<le> m" and hi: "m < 2 ^ nat (bitlen m)"
      by simp_all
    have "(2::real) powi (bitlen m - 1) = 2 ^ nat (bitlen m - 1)"
      using b1 by (simp add: power_int_nonneg_exp)
    also have "\<dots> = of_int (2 ^ nat (bitlen m - 1))" by simp
    also have "\<dots> \<le> of_int m" using lo by (simp only: of_int_le_iff)
    also have "\<dots> \<le> \<bar>x\<bar>" by (simp add: m_def)
    finally have l: "2 powi (bitlen m - 1) \<le> \<bar>x\<bar>" .
    from hi have "m + 1 \<le> 2 ^ nat (bitlen m)" by simp
    then have "of_int (m + 1) \<le> (of_int (2 ^ nat (bitlen m)) :: real)"
      by (simp only: of_int_le_iff)
    moreover have "\<bar>x\<bar> < of_int (m + 1)" by (simp add: m_def)
    ultimately have "\<bar>x\<bar> < 2 ^ nat (bitlen m)" by simp
    also have "\<dots> = 2 powi (bitlen m - 1 + 1)"
      using b1 by (simp add: power_int_nonneg_exp)
    finally show ?thesis using l e by simp
  next
    case False
    with assms have x: "0 < \<bar>x\<bar>" "\<bar>x\<bar> < 1" by simp_all
    define y where "y = 1 / \<bar>x\<bar>"
    define m where "m = \<lceil>y\<rceil> - 1"
    from x have y1: "1 < y" by (simp add: y_def)
    then have m: "0 < m" by (simp add: m_def)
    have my: "of_int m < y" "y \<le> of_int m + 1"
      by (simp_all add: m_def) linarith+
    have e: "float_exponent x = - bitlen m"
      using False by (simp add: float_exponent_def m_def y_def)
    from m have b1: "1 \<le> bitlen m" by (auto simp: bitlen_alt_def)
    from bitlen_bounds [OF m] have lo: "2 ^ nat (bitlen m - 1) \<le> m" and hi: "m < 2 ^ nat (bitlen m)"
      by simp_all
    from hi have "m + 1 \<le> 2 ^ nat (bitlen m)" by simp
    then have "of_int (m + 1) \<le> (of_int (2 ^ nat (bitlen m)) :: real)"
      by (simp only: of_int_le_iff)
    with my(2) have yhi: "y \<le> 2 ^ nat (bitlen m)" by simp
    have "(2::real) ^ nat (bitlen m - 1) = of_int (2 ^ nat (bitlen m - 1))" by simp
    also have "\<dots> \<le> of_int m" using lo by (simp only: of_int_le_iff)
    also have "\<dots> < y" by (rule my(1))
    finally have ylo: "2 ^ nat (bitlen m - 1) < y" .
    have xy: "\<bar>x\<bar> = 1 / y" using x by (simp add: y_def)
    have "(2::real) powi (- bitlen m) = 1 / 2 ^ nat (bitlen m)"
      using b1 by (intro two_powi_neg) simp
    also have "\<dots> \<le> 1 / y"
      using yhi y1 by (intro divide_left_mono) simp_all
    finally have l: "2 powi (- bitlen m) \<le> \<bar>x\<bar>" by (simp add: xy)
    have "1 / y < 1 / 2 ^ nat (bitlen m - 1)"
      using ylo y1 by (intro divide_strict_left_mono) simp_all
    also have "\<dots> = 2 powi (- (bitlen m - 1))"
      using b1 by (intro two_powi_neg [symmetric]) simp
    finally have "\<bar>x\<bar> < 2 powi (- bitlen m + 1)" by (simp add: xy)
    with l e show ?thesis by simp
  qed
  then show "2 powi float_exponent x \<le> \<bar>x\<bar>" and "\<bar>x\<bar> < 2 powi (float_exponent x + 1)"
    by simp_all
qed

lemma float_exponent_unique:
  assumes "2 powi k \<le> \<bar>x\<bar>" and "\<bar>x\<bar> < 2 powi (k + 1)"
  shows "float_exponent x = k"
proof -
  have "(0::real) < 2 powi k" by simp
  with assms(1) have "0 < \<bar>x\<bar>" by linarith
  then have x: "x \<noteq> 0" by simp
  note b = float_exponent_bounds [OF x]
  have "\<not> float_exponent x < k"
  proof
    assume "float_exponent x < k"
    then have "(2::real) powi (float_exponent x + 1) \<le> 2 powi k"
      by (intro power_int_increasing) simp_all
    with b(2) assms(1) show False by linarith
  qed
  moreover have "\<not> k < float_exponent x"
  proof
    assume "k < float_exponent x"
    then have "(2::real) powi (k + 1) \<le> 2 powi float_exponent x"
      by (intro power_int_increasing) simp_all
    with b(1) assms(2) show False by linarith
  qed
  ultimately show ?thesis by simp
qed

lemma float_exponent_mono:
  assumes "x \<noteq> 0" and "\<bar>x\<bar> \<le> \<bar>y\<bar>"
  shows "float_exponent x \<le> float_exponent y"
proof (rule ccontr)
  assume "\<not> float_exponent x \<le> float_exponent y"
  then have "float_exponent y + 1 \<le> float_exponent x" by simp
  then have "(2::real) powi (float_exponent y + 1) \<le> 2 powi float_exponent x"
    by (intro power_int_increasing) simp_all
  moreover from assms have y: "y \<noteq> 0" by auto
  ultimately show False
    using float_exponent_bounds(1) [OF assms(1)] float_exponent_bounds(2) [OF y] assms(2)
    by linarith
qed

lemma round_even_floor: "\<lfloor>x\<rfloor> \<le> round_even x" "round_even x \<le> \<lfloor>x\<rfloor> + 1"
  by (simp_all add: round_even_def)

lemma round_even_error: "\<bar>of_int (round_even x) - x\<bar> \<le> 1 / 2"
  unfolding round_even_def by (auto simp: abs_if) linarith+

lemma round_even_of_int [simp]: "round_even (of_int n) = n"
  by (simp add: round_even_def)

lemma round_even_mono:
  assumes "x \<le> y"
  shows "round_even x \<le> round_even y"
proof (cases "\<lfloor>x\<rfloor> = \<lfloor>y\<rfloor>")
  case True
  with assms show ?thesis
    unfolding round_even_def by auto
next
  case False
  with assms have "\<lfloor>x\<rfloor> + 1 \<le> \<lfloor>y\<rfloor>"
    using floor_mono [of x y] by linarith
  with round_even_floor(2) [of x] round_even_floor(1) [of y] show ?thesis
    by linarith
qed

lemma round_to_zero [simp]: "round_to p 0 = 0"
  by (simp add: round_to_def)

lemma round_to_error:
  "\<bar>round_to p x - x\<bar> \<le> \<bar>x\<bar> / 2 ^ p"
proof (cases "x = 0")
  case True
  then show ?thesis by simp
next
  case False
  define e where "e = float_exponent x"
  define s :: real where "s = 2 powi (e - int p + 1)"
  have s: "0 < s" by (simp add: s_def)
  have r: "round_to p x = of_int (round_even (x / s)) * s"
    using False by (simp add: round_to_def s_def e_def)
  have "round_to p x - x = (of_int (round_even (x / s)) - x / s) * s"
    using s by (simp add: r field_simps)
  then have "\<bar>round_to p x - x\<bar> = \<bar>of_int (round_even (x / s)) - x / s\<bar> * s"
    using s by (simp add: abs_mult)
  also have "\<dots> \<le> 1 / 2 * s"
    using s round_even_error [of "x / s"] by (intro mult_right_mono) simp_all
  also have "1 / 2 * s = 2 powi e / 2 ^ p"
    by (simp add: s_def power_int_add power_int_diff)
  also have "\<dots> \<le> \<bar>x\<bar> / 2 ^ p"
    using float_exponent_bounds(1) [OF False] by (simp add: e_def divide_right_mono)
  finally show ?thesis .
qed

lemma round_to_pos_bounds:
  assumes "0 < x" and "0 < p"
  shows "2 powi float_exponent x \<le> round_to p x" and "round_to p x \<le> 2 powi (float_exponent x + 1)"
proof -
  define e where "e = float_exponent x"
  define s :: real where "s = 2 powi (e - int p + 1)"
  have s: "0 < s" by (simp add: s_def)
  from assms have x: "x \<noteq> 0" by simp
  have r: "round_to p x = of_int (round_even (x / s)) * s"
    using x by (simp add: round_to_def s_def e_def)
  have lo: "2 powi e \<le> x" and hi: "x < 2 powi (e + 1)"
    using float_exponent_bounds [OF x] assms(1) by (simp_all add: e_def)
  from assms(2) obtain q where q: "p = Suc q" by (cases p) simp_all
  have i1: "(2::real) powi e = of_int (2 ^ (p - 1)) * s"
    by (simp add: s_def q power_int_diff)
  have i2: "(2::real) powi (e + 1) = of_int (2 ^ p) * s"
    by (simp add: s_def power_int_add power_int_diff)
  from lo i1 s have "of_int (2 ^ (p - 1)) \<le> x / s"
    by (simp add: pos_le_divide_eq)
  from round_even_mono [OF this] have "2 ^ (p - 1) \<le> round_even (x / s)"
    by (simp only: round_even_of_int)
  then have "(of_int (2 ^ (p - 1)) :: real) \<le> of_int (round_even (x / s))"
    by (simp only: of_int_le_iff)
  then have "of_int (2 ^ (p - 1)) * s \<le> of_int (round_even (x / s)) * s"
    using s by (intro mult_right_mono) simp_all
  then show "2 powi float_exponent x \<le> round_to p x"
    by (simp only: r i1 e_def [symmetric])
  from hi i2 s have "x / s \<le> of_int (2 ^ p)"
    by (simp add: pos_divide_le_eq)
  from round_even_mono [OF this] have "round_even (x / s) \<le> 2 ^ p"
    by (simp only: round_even_of_int)
  then have "(of_int (round_even (x / s)) :: real) \<le> of_int (2 ^ p)"
    by (simp only: of_int_le_iff)
  then have "of_int (round_even (x / s)) * s \<le> of_int (2 ^ p) * s"
    using s by (intro mult_right_mono) simp_all
  then show "round_to p x \<le> 2 powi (float_exponent x + 1)"
    by (simp only: r i2 e_def [symmetric])
qed

lemma round_to_neg_bounds:
  assumes "x < 0" and "0 < p"
  shows "- (2 powi (float_exponent x + 1)) \<le> round_to p x" and "round_to p x \<le> - (2 powi float_exponent x)"
proof -
  define e where "e = float_exponent x"
  define s :: real where "s = 2 powi (e - int p + 1)"
  have s: "0 < s" by (simp add: s_def)
  from assms have x: "x \<noteq> 0" by simp
  have r: "round_to p x = of_int (round_even (x / s)) * s"
    using x by (simp add: round_to_def s_def e_def)
  have lo: "x \<le> - (2 powi e)" and hi: "- (2 powi (e + 1)) < x"
    using float_exponent_bounds [OF x] assms(1) by (simp_all add: e_def)
  from assms(2) obtain q where q: "p = Suc q" by (cases p) simp_all
  have i1: "- ((2::real) powi e) = of_int (- (2 ^ (p - 1))) * s"
    by (simp add: s_def q power_int_diff)
  have i2: "- ((2::real) powi (e + 1)) = of_int (- (2 ^ p)) * s"
    by (simp add: s_def power_int_add power_int_diff)
  from lo i1 s have "x / s \<le> of_int (- (2 ^ (p - 1)))"
    by (simp add: pos_divide_le_eq)
  from round_even_mono [OF this] have "round_even (x / s) \<le> - (2 ^ (p - 1))"
    by (simp only: round_even_of_int)
  then have "(of_int (round_even (x / s)) :: real) \<le> of_int (- (2 ^ (p - 1)))"
    by (simp only: of_int_le_iff)
  then have "of_int (round_even (x / s)) * s \<le> of_int (- (2 ^ (p - 1))) * s"
    using s by (intro mult_right_mono) simp_all
  then show "round_to p x \<le> - (2 powi float_exponent x)"
    by (simp only: r i1 e_def [symmetric])
  from hi i2 s have "of_int (- (2 ^ p)) \<le> x / s"
    by (simp add: pos_le_divide_eq)
  from round_even_mono [OF this] have "- (2 ^ p) \<le> round_even (x / s)"
    by (simp only: round_even_of_int)
  then have "(of_int (- (2 ^ p)) :: real) \<le> of_int (round_even (x / s))"
    by (simp only: of_int_le_iff)
  then have "of_int (- (2 ^ p)) * s \<le> of_int (round_even (x / s)) * s"
    using s by (intro mult_right_mono) simp_all
  then show "- (2 powi (float_exponent x + 1)) \<le> round_to p x"
    by (simp only: r i2 e_def [symmetric])
qed

lemma round_to_pos: "0 < x \<Longrightarrow> 0 < p \<Longrightarrow> 0 < round_to p x"
  using round_to_pos_bounds(1) [of x p] zero_less_power_int [of "2::real" "float_exponent x"]
  by linarith

lemma round_to_neg: "x < 0 \<Longrightarrow> 0 < p \<Longrightarrow> round_to p x < 0"
  using round_to_neg_bounds(2) [of x p] zero_less_power_int [of "2::real" "float_exponent x"]
  by linarith

lemma round_to_same_exponent:
  assumes "x \<le> y" and "x \<noteq> 0" and "y \<noteq> 0" and "float_exponent x = float_exponent y"
  shows "round_to p x \<le> round_to p y"
proof -
  define s :: real where "s = 2 powi (float_exponent y - int p + 1)"
  have s: "0 < s" by (simp add: s_def)
  from assms(1) s have "x / s \<le> y / s" by (simp add: divide_right_mono)
  then have "round_even (x / s) \<le> round_even (y / s)" by (rule round_even_mono)
  then have "(of_int (round_even (x / s)) :: real) \<le> of_int (round_even (y / s))"
    by (simp only: of_int_le_iff)
  then have "of_int (round_even (x / s)) * s \<le> of_int (round_even (y / s)) * s"
    using s by (intro mult_right_mono) simp_all
  then show ?thesis
    using assms(2-4) by (simp add: round_to_def s_def)
qed

lemma round_to_mono:
  assumes "x \<le> y" and "0 < p"
  shows "round_to p x \<le> round_to p y"
proof -
  consider "x = 0" | "x \<noteq> 0" "y = 0" | "x < 0" "0 < y" | "0 < x" | "x < 0" "y < 0"
    using assms(1) by linarith
  then show ?thesis
  proof cases
    case 1
    with assms show ?thesis
      using round_to_pos [of y p] by (cases "y = 0") auto
  next
    case 2
    with assms show ?thesis
      using round_to_neg [of x p] by auto
  next
    case 3
    with assms(2) show ?thesis
      using round_to_neg [of x p] round_to_pos [of y p] by linarith
  next
    case 4
    with assms(1) have y: "0 < y" and ne: "x \<noteq> 0" "y \<noteq> 0" and ab: "\<bar>x\<bar> \<le> \<bar>y\<bar>"
      by simp_all
    from float_exponent_mono [OF ne(1) ab]
    consider "float_exponent x = float_exponent y" | "float_exponent x + 1 \<le> float_exponent y"
      by linarith
    then show ?thesis
    proof cases
      case 1
      from round_to_same_exponent [OF assms(1) ne this] show ?thesis .
    next
      case 2
      then have "(2::real) powi (float_exponent x + 1) \<le> 2 powi float_exponent y"
        by (intro power_int_increasing) simp_all
      with round_to_pos_bounds(2) [OF 4 assms(2)] round_to_pos_bounds(1) [OF y assms(2)]
      show ?thesis by linarith
    qed
  next
    case 5
    with assms(1) have ne: "x \<noteq> 0" "y \<noteq> 0" and ab: "\<bar>y\<bar> \<le> \<bar>x\<bar>"
      by simp_all
    from float_exponent_mono [OF ne(2) ab]
    consider "float_exponent x = float_exponent y" | "float_exponent y + 1 \<le> float_exponent x"
      by linarith
    then show ?thesis
    proof cases
      case 1
      from round_to_same_exponent [OF assms(1) ne this] show ?thesis .
    next
      case 2
      then have "(2::real) powi (float_exponent y + 1) \<le> 2 powi float_exponent x"
        by (intro power_int_increasing) simp_all
      with round_to_neg_bounds(2) [OF 5(1) assms(2)] round_to_neg_bounds(1) [OF 5(2) assms(2)]
      show ?thesis by linarith
    qed
  qed
qed

lemma round_to_of_int:
  assumes "0 < n" and "n < 2 ^ p"
  shows "round_to p (of_int n) = of_int n"
proof -
  define e where "e = float_exponent (of_int n)"
  define s :: real where "s = 2 powi (e - int p + 1)"
  from assms(1) have x: "(of_int n :: real) \<noteq> 0" by simp
  have lo: "2 powi e \<le> (of_int n :: real)"
    using float_exponent_bounds(1) [OF x] assms(1) by (simp add: e_def)
  have "(of_int n :: real) < of_int (2 ^ p)"
    using assms(2) by (simp only: of_int_less_iff)
  also have "(of_int (2 ^ p) :: real) = 2 powi (int p)" by simp
  finally have up: "(of_int n :: real) < 2 powi (int p)" .
  have "e < int p"
  proof (rule ccontr)
    assume "\<not> e < int p"
    then have "(2::real) powi (int p) \<le> 2 powi e"
      by (intro power_int_increasing) simp_all
    with lo up show False by linarith
  qed
  then obtain k where k: "int p - e - 1 = int k"
    using nonneg_int_cases [of "int p - e - 1"] by auto
  then have s2: "s = 1 / 2 ^ k"
    using two_powi_neg [of "int k"] by (simp add: s_def algebra_simps)
  have "of_int n / s = (of_int (n * 2 ^ k) :: real)"
    by (simp add: s2)
  then have "round_even (of_int n / s) = n * 2 ^ k"
    by (simp only: round_even_of_int)
  then have "round_to p (of_int n) = of_int (n * 2 ^ k) * s"
    using x by (simp add: round_to_def s_def e_def)
  then show ?thesis by (simp add: s2)
qed

lemma round_to_eval:
  assumes "2 powi k \<le> \<bar>x\<bar>" and "\<bar>x\<bar> < 2 powi (k + 1)"
  shows "round_to p x = of_int (round_even (x / 2 powi (k - int p + 1))) * 2 powi (k - int p + 1)"
proof -
  have "(0::real) < 2 powi k" by simp
  with assms(1) have "0 < \<bar>x\<bar>" by linarith
  then have "x \<noteq> 0" by simp
  then show ?thesis
    by (simp add: round_to_def float_exponent_unique [OF assms])
qed

lemma to_float_1500_2595: "to_float (1500 / 2595) = 9697813 / 16777216"
  unfolding to_float_def
  by (subst round_to_eval [where k = "- 1"]) (simp_all add: round_even_def)

lemma percentage_1500_2595: "to_float (to_double (100 * to_double (1 - 9697813 / 16777216))) = 11061567 / 262144"
proof -
  have a: "to_double (1 - 9697813 / 16777216) = 7079403 / 16777216"
    unfolding to_double_def
    by (subst round_to_eval [where k = "- 2"]) (simp_all add: round_even_def)
  have b: "to_double (100 * (7079403 / 16777216)) = 176985075 / 4194304"
    unfolding to_double_def
    by (subst round_to_eval [where k = "5"]) (simp_all add: round_even_def)
  have c: "to_float (176985075 / 4194304) = 11061567 / 262144"
    unfolding to_float_def
    by (subst round_to_eval [where k = "5"]) (simp_all add: round_even_def)
  show ?thesis
    by (simp only: a b c)
qed



section \<open>Properties of the calibration mapper\<close>

lemma to_float_mono: "x \<le> y \<Longrightarrow> to_float x \<le> to_float y"
  by (simp add: to_float_def round_to_mono)

lemma to_double_mono: "x \<le> y \<Longrightarrow> to_double x \<le> to_double y"
  by (simp add: to_double_def round_to_mono)

lemma to_float_exact [simp]: "to_float 0 = 0" "to_float 1 = 1" "to_float 100 = 100"
  using round_to_of_int [of 1 24] round_to_of_int [of 100 24]
  by (simp_all add: to_float_def)

lemma to_double_exact [simp]: "to_double 0 = 0" "to_double 1 = 1" "to_double 100 = 100"
  using round_to_of_int [of 1 53] round_to_of_int [of 100 53]
  by (simp_all add: to_double_def)

lemma to_float_sign: "0 < x \<Longrightarrow> 0 < to_float x" "x < 0 \<Longrightarrow> to_float x < 0"
  by (simp_all add: to_float_def round_to_pos round_to_neg)

lemma to_float_error: "\<bar>to_float x - x\<bar> \<le> \<bar>x\<bar> / 16777216"
  using round_to_error [of 24 x] by (simp add: to_float_def)

lemma to_double_error: "\<bar>to_double x - x\<bar> \<le> \<bar>x\<bar> / 9007199254740992"
  using round_to_error [of 53 x] by (simp add: to_double_def)

lemma constrain_range: "0 \<le> constrain x 0 100" "constrain x 0 100 \<le> 100"
  by (simp_all add: constrain_def)

lemma constrain_mono: "x \<le> y \<Longrightarrow> constrain x 0 100 \<le> constrain y 0 100"
  by (simp add: constrain_def)

lemma pct_of_antimono: "q \<le> q' \<Longrightarrow> pct_of q' \<le> pct_of q"
  unfolding pct_of_def
  by (intro constrain_mono to_float_mono to_double_mono mult_left_mono) simp_all

lemma pct_of_nonpos: "q \<le> 0 \<Longrightarrow> pct_of q = 100"
proof -
  assume "q \<le> 0"
  then have "1 \<le> 1 - q" by simp
  from to_double_mono [OF this] have "1 \<le> to_double (1 - q)" by simp
  then have "100 \<le> 100 * to_double (1 - q)" by simp
  from to_float_mono [OF to_double_mono [OF this]]
  have "100 \<le> to_float (to_double (100 * to_double (1 - q)))" by simp
  then show ?thesis by (simp add: pct_of_def constrain_def)
qed

lemma pct_of_ge_one: "1 \<le> q \<Longrightarrow> pct_of q = 0"
proof -
  assume "1 \<le> q"
  then have "1 - q \<le> 0" by simp
  from to_double_mono [OF this] have "to_double (1 - q) \<le> 0" by simp
  then have "100 * to_double (1 - q) \<le> 0" by simp
  from to_float_mono [OF to_double_mono [OF this]]
  have "to_float (to_double (100 * to_double (1 - q))) \<le> 0" by simp
  then show ?thesis by (auto simp: pct_of_def constrain_def)
qed

lemma int_to_float_sign:
  "0 < sint n \<Longrightarrow> 0 < int_to_float n" "sint n < 0 \<Longrightarrow> int_to_float n < 0"
  unfolding int_to_float_def
  by (intro to_float_sign; simp only: of_int_less_0_iff of_int_0_less_iff)+

lemma int_to_float_mono: "sint m \<le> sint n \<Longrightarrow> int_to_float m \<le> int_to_float n"
  unfolding int_to_float_def
  by (intro to_float_mono) (simp only: of_int_le_iff)

lemma int_to_float_error:
  "\<bar>int_to_float n - real_of_int (sint n)\<bar> \<le> \<bar>real_of_int (sint n)\<bar> / 16777216"
  unfolding int_to_float_def by (rule to_float_error)

lemma interpolate_eq:
  assumes "sint den \<noteq> 0"
  shows "interpolate num den = Some (pct_of (to_float (int_to_float num / int_to_float den)))"
proof -
  from assms have "sint den < 0 \<or> 0 < sint den" by auto
  then have "int_to_float den \<noteq> 0"
    using int_to_float_sign [of den] by auto
  then show ?thesis
    by (simp add: interpolate_def float_div_def pct_of_def)
qed

lemma pct_of_range: "0 \<le> pct_of q" "pct_of q \<le> 100"
  by (simp_all add: pct_of_def constrain_range)

lemma interpolate_pos_den_antimono:
  assumes "0 < sint den" and "sint m \<le> sint n"
  shows "\<exists>p p'. interpolate m den = Some p \<and> interpolate n den = Some p' \<and> p' \<le> p"
proof -
  from assms(1) have b: "0 < int_to_float den" by (rule int_to_float_sign)
  from assms(2) have "int_to_float m \<le> int_to_float n" by (rule int_to_float_mono)
  with b have "int_to_float m / int_to_float den \<le> int_to_float n / int_to_float den"
    by (simp add: divide_right_mono)
  from pct_of_antimono [OF to_float_mono [OF this]] assms(1) show ?thesis
    by (simp add: interpolate_eq)
qed

lemma interpolate_pos_neg:
  assumes "0 < sint num" and "sint den < 0"
  shows "interpolate num den = Some 100"
proof -
  from assms have "0 < int_to_float num" "int_to_float den < 0"
    by (simp_all add: int_to_float_sign)
  then have "int_to_float num / int_to_float den \<le> 0"
    by (simp add: divide_le_0_iff)
  from to_float_mono [OF this] have "to_float (int_to_float num / int_to_float den) \<le> 0"
    by simp
  from pct_of_nonpos [OF this] assms(2) show ?thesis
    by (simp add: interpolate_eq)
qed

lemma interpolate_neg_neg:
  assumes "sint num \<le> sint den" and "sint den < 0"
  shows "interpolate num den = Some 0"
proof -
  from assms(2) have b: "int_to_float den < 0" by (rule int_to_float_sign)
  from assms(1) have "int_to_float num \<le> int_to_float den" by (rule int_to_float_mono)
  with b have "1 \<le> int_to_float num / int_to_float den"
    by (simp add: neg_le_divide_eq)
  from to_float_mono [OF this] have "1 \<le> to_float (int_to_float num / int_to_float den)"
    by simp
  from pct_of_ge_one [OF this] assms(2) show ?thesis
    by (simp add: interpolate_eq)
qed

lemma wrap32:
  "signed_take_bit 31 (k::int) = (k + 2147483648) mod 4294967296 - 2147483648"
  by (simp add: signed_take_bit_eq_take_bit_shift take_bit_eq_mod)

lemma sint_diff32:
  fixes a b :: "32 word"
  shows "sint (a - b) = (sint a - sint b + 2147483648) mod 4294967296 - 2147483648"
  by (simp add: sint_word_diff wrap32)

lemma sint32_range:
  fixes a :: "32 word"
  shows "- 2147483648 \<le> sint a" "sint a < 2147483648"
  using sint_ge [of a] sint_lt [of a] by simp_all

lemma sint_diff32_cases:
  fixes a b :: "32 word"
  assumes "sint b < sint a"
  shows "sint a - sint b < 2147483648 \<Longrightarrow> sint (a - b) = sint a - sint b"
    and "2147483648 \<le> sint a - sint b \<Longrightarrow> sint (a - b) = sint a - sint b - 4294967296"
proof -
  note r = sint32_range [of a] sint32_range [of b]
  show "sint (a - b) = sint a - sint b" if "sint a - sint b < 2147483648"
    using that assms by (simp add: sint_diff32)
  show "sint (a - b) = sint a - sint b - 4294967296" if "2147483648 \<le> sint a - sint b"
  proof -
    have "sint a - sint b + 2147483648 = (sint a - sint b - 2147483648) + 4294967296"
      by simp
    then have "(sint a - sint b + 2147483648) mod 4294967296
          = (sint a - sint b - 2147483648) mod 4294967296"
      by (simp only: mod_add_self2)
    also have "\<dots> = sint a - sint b - 2147483648"
      using that r by (intro mod_pos_pos_trivial) linarith+
    finally show ?thesis by (simp add: sint_diff32)
  qed
qed

lemma pct_of_error:
  fixes n d :: real
  assumes n: "0 < n" and nd: "n < d"
  shows "\<bar>pct_of (to_float (to_float n / to_float d)) - 100 * (1 - n / d)\<bar> \<le> 3 / 100000"
proof -
  define x where "x = n / d"
  define a where "a = to_float n"
  define b where "b = to_float d"
  define c where "c = a / b"
  define q where "q = to_float c"
  define r where "r = to_double (1 - q)"
  define t where "t = to_double (100 * r)"
  define p where "p = to_float t"
  from n nd have d: "0 < d" by simp
  with n nd have x: "0 < x" "x < 1" by (simp_all add: x_def)
  have a0: "0 < a"
    using to_float_sign(1) [OF n] by (simp add: a_def)
  have "\<bar>a - n\<bar> \<le> n / 16777216"
    using to_float_error [of n] n by (simp add: a_def)
  then have a1: "a \<le> n + n / 16777216" "n - n / 16777216 \<le> a"
    by linarith+
  note a = a0 a1
  have b0: "0 < b"
    using to_float_sign(1) [OF d] by (simp add: b_def)
  have "\<bar>b - d\<bar> \<le> d / 16777216"
    using to_float_error [of d] d by (simp add: b_def)
  then have b1: "b \<le> d + d / 16777216" "d - d / 16777216 \<le> b"
    by linarith+
  note b = b0 b1
  have ab: "a \<le> b"
    using nd by (simp add: a_def b_def to_float_mono)
  have c0: "0 < c" "c \<le> 1"
    using a(1) b(1) ab by (simp_all add: c_def)
  have "c \<le> (n + n / 16777216) / (d - d / 16777216)"
    unfolding c_def using a b d by (intro frac_le) simp_all
  also have "\<dots> = x * (16777217 / 16777215)"
    using d by (simp add: x_def field_simps)
  finally have c_hi: "c \<le> x * (16777217 / 16777215)" .
  have "(n - n / 16777216) / (d + d / 16777216) \<le> c"
    unfolding c_def using a b d n by (intro frac_le) simp_all
  moreover have "(n - n / 16777216) / (d + d / 16777216) = x * (16777215 / 16777217)"
    using d by (simp add: x_def field_simps)
  ultimately have c_lo: "x * (16777215 / 16777217) \<le> c" by simp
  have "\<bar>q - c\<bar> \<le> c / 16777216"
    using to_float_error [of c] c0(1) by (simp add: q_def)
  then have qe: "q \<le> c + c / 16777216" "c - c / 16777216 \<le> q"
    by linarith+
  have q01: "0 \<le> q" "q \<le> 1"
    using to_float_mono [of 0 c] to_float_mono [of c 1] c0 by (simp_all add: q_def)
  from qe c_hi c_lo x have qx: "\<bar>q - x\<bar> \<le> 4 / 16777216"
    by linarith
  have r01: "0 \<le> r" "r \<le> 1"
    using to_double_mono [of 0 "1 - q"] to_double_mono [of "1 - q" 1] q01 by (simp_all add: r_def)
  have re: "\<bar>r - (1 - q)\<bar> \<le> 1 / 9007199254740992"
  proof -
    have "\<bar>r - (1 - q)\<bar> \<le> \<bar>1 - q\<bar> / 9007199254740992"
      unfolding r_def by (rule to_double_error)
    also have "\<dots> \<le> 1 / 9007199254740992"
      using q01 by (intro divide_right_mono) simp_all
    finally show ?thesis .
  qed
  have t01: "0 \<le> t" "t \<le> 100"
    using to_double_mono [of 0 "100 * r"] to_double_mono [of "100 * r" 100] r01
    by (simp_all add: t_def)
  have te: "\<bar>t - 100 * r\<bar> \<le> 100 / 9007199254740992"
  proof -
    have "\<bar>t - 100 * r\<bar> \<le> \<bar>100 * r\<bar> / 9007199254740992"
      unfolding t_def by (rule to_double_error)
    also have "\<dots> \<le> 100 / 9007199254740992"
      using r01 by (intro divide_right_mono) simp_all
    finally show ?thesis .
  qed
  have p01: "0 \<le> p" "p \<le> 100"
    using to_float_mono [of 0 t] to_float_mono [of t 100] t01 by (simp_all add: p_def)
  have pe: "\<bar>p - t\<bar> \<le> 100 / 16777216"
  proof -
    have "\<bar>p - t\<bar> \<le> \<bar>t\<bar> / 16777216"
      unfolding p_def by (rule to_float_error)
    also have "\<dots> \<le> 100 / 16777216"
      using t01 by (intro divide_right_mono) simp_all
    finally show ?thesis .
  qed
  have "pct_of q = p"
    using p01 by (simp add: pct_of_def constrain_def p_def t_def r_def)
  moreover have "\<bar>p - 100 * (1 - x)\<bar> \<le> 3 / 100000"
  proof -
    from qx have 1: "q - x \<le> 4 / 16777216" "x - q \<le> 4 / 16777216" by linarith+
    from re have 2: "r - (1 - q) \<le> 1 / 9007199254740992" "(1 - q) - r \<le> 1 / 9007199254740992"
      by linarith+
    from te have 3: "t - 100 * r \<le> 100 / 9007199254740992" "100 * r - t \<le> 100 / 9007199254740992"
      by linarith+
    from pe have 4: "p - t \<le> 100 / 16777216" "t - p \<le> 100 / 16777216" by linarith+
    have "p - 100 * (1 - x) = (p - t) + (t - 100 * r) + 100 * (r - (1 - q)) + 100 * (x - q)"
      by (simp add: algebra_simps)
    also have "\<dots> \<le> 100 / 16777216 + 100 / 9007199254740992
                 + 100 * (1 / 9007199254740992) + 100 * (4 / 16777216)"
      using 1 2 3 4 by (intro add_mono mult_left_mono) simp_all
    also have "\<dots> \<le> 3 / 100000" by simp
    finally have hi: "p - 100 * (1 - x) \<le> 3 / 100000" .
    have "100 * (1 - x) - p = (t - p) + (100 * r - t) + 100 * ((1 - q) - r) + 100 * (q - x)"
      by (simp add: algebra_simps)
    also have "\<dots> \<le> 100 / 16777216 + 100 / 9007199254740992
                 + 100 * (1 / 9007199254740992) + 100 * (4 / 16777216)"
      using 1 2 3 4 by (intro add_mono mult_left_mono) simp_all
    also have "\<dots> \<le> 3 / 100000" by simp
    finally have lo: "100 * (1 - x) - p \<le> 3 / 100000" .
    show ?thesis
    proof (rule abs_leI)
      show "p - 100 * (1 - x) \<le> 3 / 100000" by (rule hi)
      show "- (p - 100 * (1 - x)) \<le> 3 / 100000" using lo by (simp only: minus_diff_eq)
    qed
  qed
  ultimately show ?thesis
    by (simp add: q_def c_def a_def b_def x_def)
qed

lemma map_adc_operands_Inr:
  "map_adc_operands cfg raw = Inr (num, den) \<longleftrightarrow>
     0 \<le> sint raw \<and> sint raw \<le> 4095 \<and> sint (adc_wet cfg) < sint (adc_dry cfg)
     \<and> sint (adc_wet cfg) < sint raw \<and> sint raw < sint (adc_dry cfg)
     \<and> num = raw - adc_wet cfg \<and> den = adc_dry cfg - adc_wet cfg"
  by (auto simp: map_adc_operands_def)

lemma den_nonzero:
  assumes "sint (adc_wet cfg) < sint (adc_dry cfg)"
  shows "sint (adc_dry cfg - adc_wet cfg) \<noteq> 0"
proof (cases "sint (adc_dry cfg) - sint (adc_wet cfg) < 2147483648")
  case True
  from sint_diff32_cases(1) [OF assms True] assms show ?thesis by simp
next
  case False
  then have "2147483648 \<le> sint (adc_dry cfg) - sint (adc_wet cfg)" by simp
  from sint_diff32_cases(2) [OF assms this] sint32_range [of "adc_dry cfg"] sint32_range [of "adc_wet cfg"]
  show ?thesis by simp
qed

lemma map_adc_interpolated:
  assumes "0 \<le> sint raw" "sint raw \<le> 4095" "sint (adc_wet cfg) < sint raw" "sint raw < sint (adc_dry cfg)"
  shows "map_adc_to_percentage cfg raw =
           Some (pct_of (to_float (int_to_float (raw - adc_wet cfg)
                                   / int_to_float (adc_dry cfg - adc_wet cfg))))"
proof -
  from assms have v: "sint (adc_wet cfg) < sint (adc_dry cfg)" by simp
  from assms have "map_adc_operands cfg raw = Inr (raw - adc_wet cfg, adc_dry cfg - adc_wet cfg)"
    by (simp add: map_adc_operands_Inr)
  then show ?thesis
    by (simp add: map_adc_to_percentage_def interpolate_eq [OF den_nonzero [OF v]])
qed

lemma map_adc_total: "\<exists>p. map_adc_to_percentage cfg raw = Some p \<and> 0 \<le> p \<and> p \<le> 100"
proof (cases "0 \<le> sint raw \<and> sint raw \<le> 4095 \<and> sint (adc_wet cfg) < sint raw
              \<and> sint raw < sint (adc_dry cfg)")
  case True
  then show ?thesis
    by (simp add: map_adc_interpolated pct_of_range)
next
  case False
  then show ?thesis
    by (auto simp: map_adc_to_percentage_def map_adc_operands_def)
qed

lemma map_adc_antimono:
  assumes cal: "sint (adc_wet cfg) < sint (adc_dry cfg)"
    and r: "0 \<le> sint raw" "sint raw \<le> sint raw'" "sint raw' \<le> 4095"
    and p: "map_adc_to_percentage cfg raw = Some p"
    and p': "map_adc_to_percentage cfg raw' = Some p'"
  shows "p' \<le> p"
proof -
  let ?W = "sint (adc_wet cfg)" and ?D = "sint (adc_dry cfg)"
  let ?den = "adc_dry cfg - adc_wet cfg"
  from map_adc_total [of cfg raw] p have pr: "0 \<le> p" "p \<le> 100" by simp_all
  from map_adc_total [of cfg raw'] p' have pr': "0 \<le> p'" "p' \<le> 100" by simp_all
  show ?thesis
  proof (cases "sint raw \<le> ?W")
    case True
    with cal r have "map_adc_to_percentage cfg raw = Some 100"
      by (simp add: map_adc_to_percentage_def map_adc_operands_def)
    with p pr' show ?thesis by simp
  next
    case lo: False
    show ?thesis
    proof (cases "?D \<le> sint raw'")
      case True
      with cal r have "map_adc_to_percentage cfg raw' = Some 0"
        by (auto simp: map_adc_to_percentage_def map_adc_operands_def)
      with p' pr show ?thesis by simp
    next
      case hi: False
      from lo hi r have in1: "?W < sint raw" "sint raw < ?D" "0 \<le> sint raw" "sint raw \<le> 4095"
        and in2: "?W < sint raw'" "sint raw' < ?D" "0 \<le> sint raw'" "sint raw' \<le> 4095"
        by simp_all
      have op: "map_adc_to_percentage cfg raw = interpolate (raw - adc_wet cfg) ?den"
        "map_adc_to_percentage cfg raw' = interpolate (raw' - adc_wet cfg) ?den"
        using in1 in2 cal by (simp_all add: map_adc_to_percentage_def map_adc_operands_def)
      show ?thesis
      proof (cases "?D - ?W < 2147483648")
        case True
        from sint_diff32_cases(1) [OF cal True] cal have den: "0 < sint ?den" by simp
        from in1 in2 True have "sint raw - ?W < 2147483648" "sint raw' - ?W < 2147483648"
          by simp_all
        with sint_diff32_cases(1) [OF in1(1)] sint_diff32_cases(1) [OF in2(1)] r(2)
        have "sint (raw - adc_wet cfg) \<le> sint (raw' - adc_wet cfg)" by simp
        from interpolate_pos_den_antimono [OF den this] p p' op show ?thesis
          by simp
      next
        case False
        then have big: "2147483648 \<le> ?D - ?W" by simp
        note den = sint_diff32_cases(2) [OF cal big]
        have dneg: "sint ?den < 0"
          using den sint32_range [of "adc_dry cfg"] sint32_range [of "adc_wet cfg"] by simp
        show ?thesis
        proof (cases "sint raw' - ?W < 2147483648")
          case True
          with r(2) have "sint raw - ?W < 2147483648" by simp
          from sint_diff32_cases(1) [OF in1(1) this] in1(1)
          have "0 < sint (raw - adc_wet cfg)" by simp
          from interpolate_pos_neg [OF this dneg] op(1) p have "p = 100" by simp
          with pr' show ?thesis by simp
        next
          case False
          then have "2147483648 \<le> sint raw' - ?W" by simp
          from sint_diff32_cases(2) [OF in2(1) this] den in2(2)
          have "sint (raw' - adc_wet cfg) \<le> sint ?den" by simp
          from interpolate_neg_neg [OF this dneg] op(2) p' have "p' = 0" by simp
          with pr show ?thesis by simp
        qed
      qed
    qed
  qed
qed

lemma map_adc_error:
  assumes "0 \<le> sint raw" "sint raw \<le> 4095" "sint (adc_wet cfg) < sint raw"
    and "sint raw < sint (adc_dry cfg)"
    and fit: "sint (adc_dry cfg) - sint (adc_wet cfg) < 2147483648"
  shows "\<exists>p. map_adc_to_percentage cfg raw = Some p
        \<and> \<bar>p - 100 * (1 - real_of_int (sint raw - sint (adc_wet cfg))
                              / real_of_int (sint (adc_dry cfg) - sint (adc_wet cfg)))\<bar> \<le> 3 / 100000"
proof -
  let ?W = "sint (adc_wet cfg)" and ?D = "sint (adc_dry cfg)"
  from assms have cal: "?W < ?D" by simp
  from assms have "sint raw - ?W < 2147483648" by simp
  from sint_diff32_cases(1) [OF assms(3) this]
  have n: "sint (raw - adc_wet cfg) = sint raw - ?W" .
  from sint_diff32_cases(1) [OF cal fit]
  have d: "sint (adc_dry cfg - adc_wet cfg) = ?D - ?W" .
  have i: "0 < sint raw - ?W" "sint raw - ?W < ?D - ?W"
    using assms by simp_all
  then have "0 < real_of_int (sint raw - ?W)" "real_of_int (sint raw - ?W) < real_of_int (?D - ?W)"
    by (simp_all only: of_int_0_less_iff of_int_less_iff)
  from pct_of_error [OF this]
  show ?thesis
    by (simp add: map_adc_interpolated [OF assms(1-4)] int_to_float_def n d del: of_int_diff)
qed

lemma linear_inside:
  assumes "0 < n" and "n < d"
  shows "constrain (100 * (1 - real_of_int n / real_of_int d)) 0 100
           = 100 * (1 - real_of_int n / real_of_int d)"
proof -
  from assms have "0 \<le> real_of_int n / real_of_int d" "real_of_int n / real_of_int d \<le> 1"
    by simp_all
  then have "0 \<le> 100 * (1 - real_of_int n / real_of_int d)"
    and "100 * (1 - real_of_int n / real_of_int d) \<le> 100"
    by simp_all
  then show ?thesis
    unfolding constrain_def by (simp only: not_less if_False split: if_splits) auto
qed

lemma wide_operands: "map_adc_operands wide_calibration 1000 = Inr (2000001000, - 294967296)"
  by (simp add: map_adc_operands_def wide_calibration_def)

lemma wide_value: "map_adc_to_percentage wide_calibration 1000 = Some 100"
proof -
  have "sint (2000001000 :: 32 word) > 0" "sint (- 294967296 :: 32 word) < 0" by simp_all
  from interpolate_pos_neg [OF this] show ?thesis
    by (simp add: map_adc_to_percentage_def wide_operands)
qed

lemma default_config_refs:
  "adc_dry (config power_on) = 4095" "adc_wet (config power_on) = 1500"
  by (simp_all add: power_on_def DEFAULT_ADC_DRY_def DEFAULT_ADC_WET_def)

lemma default_value: "map_adc_to_percentage (config power_on) 3000 = Some (11061567 / 262144)"
proof -
  have o: "map_adc_operands (config power_on) 3000 = Inr (1500, 2595)"
    by (simp add: map_adc_operands_def default_config_refs)
  have f: "int_to_float 1500 = 1500" "int_to_float 2595 = 2595"
    using round_to_of_int [of 1500 24] round_to_of_int [of 2595 24]
    by (simp_all add: int_to_float_def to_float_def)
  have i: "interpolate 1500 2595 = Some (pct_of (to_float (1500 / 2595)))"
    using interpolate_eq [of 2595 1500] by (simp add: f)
  have "pct_of (9697813 / 16777216) = constrain (11061567 / 262144) 0 100"
    by (simp only: pct_of_def percentage_1500_2595)
  also have "\<dots> = 11061567 / 262144"
    by (simp add: constrain_def)
  finally have pv: "pct_of (9697813 / 16777216) = 11061567 / 262144" .
  have "map_adc_to_percentage (config power_on) 3000 = interpolate 1500 2595"
    by (simp add: map_adc_to_percentage_def o)
  also have "\<dots> = Some (pct_of (to_float (1500 / 2595)))" by (rule i)
  also have "\<dots> = Some (pct_of (9697813 / 16777216))" by (simp only: to_float_1500_2595)
  also have "\<dots> = Some (11061567 / 262144)" by (simp only: pv)
  finally show ?thesis .
qed

section \<open>Queue sends that do not wait\<close>

lemma send_log_0:
  "send_log entry 0 s =
     Some (if length (items (log_queue s)) < capacity (log_queue s)
           then s\<lparr>log_queue := (log_queue s)\<lparr>items := items (log_queue s) @ [entry]\<rparr>\<rparr>
           else s)"
  by (simp add: send_log_def xQueueSend_def)

lemma send_command_0:
  "send_command command 0 s =
     Some (if length (items (pump_command_queue s)) < capacity (pump_command_queue s)
           then s\<lparr>pump_command_queue :=
                    (pump_command_queue s)\<lparr>items := items (pump_command_queue s) @ [command]\<rparr>\<rparr>
           else s)"
  by (simp add: send_command_def xQueueSend_def)

section \<open>The tasks, step by step\<close>

lemma sensor_task_cycle_eq:
  "sensor_task_cycle now raw s =
     (case map_adc_to_percentage (config s) raw of
        None \<Rightarrow> None
      | Some pct \<Rightarrow>
          send_log \<lparr>entry_timestamp = now, entry_raw_adc = raw, percentage = pct,
                     event = ''SENSOR_READ'',
                     details = (if 100 < sint raw \<and> sint raw < 4000 then ''OK'' else ''DISCONNECTED'')\<rparr> 0
            (s\<lparr>current_reading :=
                 (current_reading s)\<lparr>moisture := (if 100 < sint raw \<and> sint raw < 4000 then pct else 0),
                                      valid := (100 < sint raw \<and> sint raw < 4000),
                                      timestamp := now, raw_adc := raw\<rparr>\<rparr>))"
  by (cases "100 < sint raw \<and> sint raw < 4000")
     (auto simp: sensor_task_cycle_def Let_def split: option.splits)

lemma xQueueReceive_0:
  "xQueueReceive q 0 = (case items q of [] \<Rightarrow> Nothing | item # rest \<Rightarrow> Received item (q\<lparr>items := rest\<rparr>))"
  by (simp add: xQueueReceive_def split: list.splits)

lemma handleManualPump_eq:
  "handleManualPump now s =
     Some (\<lparr>code = 200, content_type = ''application/json'',
             body = [(''status'', JString ''manual_pump_triggered''), (''timestamp'', JNumber now)]\<rparr>,
           if length (items (pump_command_queue s)) < capacity (pump_command_queue s)
           then s\<lparr>pump_command_queue :=
                    (pump_command_queue s)\<lparr>items := items (pump_command_queue s) @ [True]\<rparr>\<rparr>
           else s)"
  by (simp add: handleManualPump_def send_command_0)

lemma sensor_task_cycle_total: "\<exists>s'. sensor_task_cycle now raw s = Some s'"
  using map_adc_total [of "config s" raw]
  by (auto simp: sensor_task_cycle_eq send_log_0)

lemma wifi_task_iteration_total: "\<exists>d s'. wifi_task_iteration now link_up s = Some (d, s')"
  by (simp add: wifi_task_iteration_def send_log_0 Let_def)

lemma pump_start_eq:
  "pump_start now s =
     Some ((start_logged now s)
           \<lparr>relay_pin := Some relay_energized,
            pump_state := (pump_state s)\<lparr>pump_active := True, last_change := now, status := ''MANUAL''\<rparr>,
            mutex_held := False\<rparr>)"
  by (simp add: pump_start_def pump_start_steps_def send_log_0 start_logged_def digitalWrite_def
        xSemaphoreTake_def xSemaphoreGive_def relay_energized_def)

lemma pump_stop_eq:
  "pump_stop now s =
     Some ((if length (items (log_queue s)) < capacity (log_queue s)
            then s\<lparr>log_queue := (log_queue s)\<lparr>items := items (log_queue s) @
                       [\<lparr>entry_timestamp = now, entry_raw_adc = raw_adc (current_reading s),
                         percentage = moisture (current_reading s),
                         event = ''PUMP_MANUAL_STOP'', details = ''Manual completed''\<rparr>]\<rparr>\<rparr>
            else s)
           \<lparr>relay_pin := Some relay_deenergized,
            pump_state := (pump_state s)\<lparr>pump_active := False, last_change := now, status := ''IDLE''\<rparr>,
            mutex_held := False\<rparr>)"
  by (simp add: pump_stop_def pump_stop_steps_def send_log_0 digitalWrite_def
        xSemaphoreTake_def xSemaphoreGive_def relay_deenergized_def)

lemma env_step_total: "\<exists>s'. env_step e s = Some s'"
proof (cases e)
  case (Http_manual_pump now)
  then show ?thesis by (simp add: handleManualPump_eq)
next
  case (Sensor_sample now raw)
  then show ?thesis using sensor_task_cycle_total by simp
next
  case (Wifi_poll now link_up)
  then show ?thesis using wifi_task_iteration_total [of now link_up s] by auto
next
  case Logger_take
  then show ?thesis by (simp split: option.splits)
qed

lemma other_tasks_total: "\<exists>s'. other_tasks es s = Some s'"
proof (induction es arbitrary: s)
  case Nil
  show ?case by simp
next
  case (Cons e es)
  obtain s1 where "env_step e s = Some s1"
    using env_step_total by blast
  with Cons.IH [of s1] show ?case by simp
qed

text \<open>What a step of another task leaves alone.\<close>

lemma env_step_frame:
  assumes "env_step e s = Some s'"
  shows "pump_state s' = pump_state s" and "relay_pin s' = relay_pin s" and "tasks s' = tasks s"
    and "capacity (pump_command_queue s') = capacity (pump_command_queue s)"
    and "capacity (log_queue s') = capacity (log_queue s)"
    and "mutex_held s' = mutex_held s"
  using assms
  by (cases e;
      auto simp: handleManualPump_eq sensor_task_cycle_eq send_log_0 wifi_task_iteration_def
                 logger_task_iteration_def xQueueReceive_def Let_def
           split: option.splits if_splits list.splits)+

lemma env_step_commands:
  assumes "env_step e s = Some s'"
  shows "pending_commands s' =
           pending_commands s @
             replicate (min (manual_requests [e])
                            (capacity (pump_command_queue s) - length (pending_commands s))) True"
  using assms
  by (cases e;
      auto simp: handleManualPump_eq sensor_task_cycle_eq send_log_0 wifi_task_iteration_def
                 logger_task_iteration_def xQueueReceive_def Let_def pending_commands_def
                 manual_requests_def
           split: option.splits if_splits list.splits)+

lemma other_tasks_frame:
  assumes "other_tasks es s = Some s'"
  shows "pump_state s' = pump_state s \<and> relay_pin s' = relay_pin s \<and> tasks s' = tasks s
       \<and> capacity (pump_command_queue s') = capacity (pump_command_queue s)
       \<and> capacity (log_queue s') = capacity (log_queue s)
       \<and> mutex_held s' = mutex_held s"
  using assms
proof (induction es arbitrary: s)
  case Nil
  then show ?case by simp
next
  case (Cons e es)
  then obtain s1 where e: "env_step e s = Some s1" and r: "other_tasks es s1 = Some s'"
    by (auto simp: bind_eq_Some_conv)
  from Cons.IH [OF r] env_step_frame [OF e] show ?case by simp
qed

lemma replicate_min_step:
  "replicate (min a c) x @ replicate (min b (c - min a c)) x = replicate (min (a + b) c) (x::'a)"
  by (simp add: replicate_add [symmetric] del: replicate_add)

lemma other_tasks_commands:
  assumes "other_tasks es s = Some s'"
  shows "pending_commands s' =
           pending_commands s @
             replicate (min (manual_requests es)
                            (capacity (pump_command_queue s) - length (pending_commands s))) True"
  using assms
proof (induction es arbitrary: s)
  case Nil
  then show ?case by (simp add: manual_requests_def)
next
  case (Cons e es)
  then obtain s1 where e: "env_step e s = Some s1" and r: "other_tasks es s1 = Some s'"
    by (auto simp: bind_eq_Some_conv)
  let ?c = "capacity (pump_command_queue s) - length (pending_commands s)"
  let ?a = "manual_requests [e]"
  let ?b = "manual_requests es"
  have cap: "capacity (pump_command_queue s1) = capacity (pump_command_queue s)"
    using env_step_frame [OF e] by simp
  have p1: "pending_commands s1 = pending_commands s @ replicate (min ?a ?c) True"
    by (rule env_step_commands [OF e])
  have room: "capacity (pump_command_queue s1) - length (pending_commands s1) = ?c - min ?a ?c"
    by (simp add: cap p1)
  have "pending_commands s' = pending_commands s1 @ replicate (min ?b (?c - min ?a ?c)) True"
    using Cons.IH [OF r] by (simp only: room)
  also have "\<dots> = pending_commands s @ replicate (min (?a + ?b) ?c) True"
    by (simp only: p1 append_assoc replicate_min_step)
  also have "?a + ?b = manual_requests (e # es)"
    by (simp add: manual_requests_def)
  finally show ?case .
qed

lemma filter_tl_length: "length (filter P (tl xs)) \<le> length (filter P xs)"
  by (cases xs) simp_all

lemma env_step_starts:
  assumes "env_step e s = Some s'"
  shows "count_event ''PUMP_MANUAL_START'' s' \<le> count_event ''PUMP_MANUAL_START'' s"
  using assms
  by (cases e;
      auto simp: handleManualPump_eq sensor_task_cycle_eq send_log_0 wifi_task_iteration_def
                 logger_task_iteration_def xQueueReceive_def Let_def count_event_def log_events_def
           split: option.splits if_splits list.splits)+

lemma other_tasks_starts:
  assumes "other_tasks es s = Some s'"
  shows "count_event ''PUMP_MANUAL_START'' s' \<le> count_event ''PUMP_MANUAL_START'' s"
  using assms
proof (induction es arbitrary: s)
  case Nil
  then show ?case by simp
next
  case (Cons e es)
  then obtain s1 where e: "env_step e s = Some s1" and r: "other_tasks es s1 = Some s'"
    by (auto simp: bind_eq_Some_conv)
  from Cons.IH [OF r] env_step_starts [OF e] show ?case by simp
qed

lemma setup_power_on: "setup_fn 0 power_on = Some booted"
  by (simp add: setup_fn_def setup_sequence_def send_log_0 pinMode_def digitalWrite_def
        xTaskCreatePinnedToCore_def xQueueCreate_def power_on_def booted_def
        RELAY_PIN_def ADC_PIN_def RELAY_ACTIVE_HIGH_def LOG_QUEUE_SIZE_def)

lemma booted_config: "adc_dry (config booted) = 4095" "adc_wet (config booted) = 1500"
  by (simp_all add: booted_def default_config_refs)

section \<open>The WiFi task on a lost link\<close>

lemma wifi_down_step:
  "wifi_task_iteration now False s = Some (d, s') \<Longrightarrow>
     d = Some (min (1000 * 2 ^ nat (min (retries s + 1) 6)) 30000) \<and> retries s' = retries s + 1"
  by (auto simp: wifi_task_iteration_def send_log_0 Let_def push_bit_eq_mult split: if_splits)

lemma backoff_values:
  fixes k :: nat
  shows "min (1000 * 2 ^ nat (min (int k + 1) 6)) (30000::int) =
         (if k + 1 \<le> 4 then 1000 * 2 ^ (k + 1) else 30000)"
proof -
  consider "k = 0" | "k = 1" | "k = 2" | "k = 3" | "k = 4" | "5 \<le> k"
    by linarith
  then show ?thesis
  proof cases
    case 6
    then have "min (int k + 1) 6 = 6" by simp
    with 6 show ?thesis by simp
  qed simp_all
qed

lemma upt_shift: "[r + 1 ..< r + 1 + Suc n] = (r + 1) # [Suc r + 1 ..< Suc r + 1 + n]"
  by (simp add: upt_conv_Cons)

lemma wifi_task_down:
  assumes "\<forall>p \<in> set polls. \<not> snd p" and "retries s = int r"
  shows "\<exists>s'. wifi_task polls s =
            Some (map (\<lambda>k. if k \<le> 4 then 1000 * 2 ^ k else 30000) [r + 1 ..< r + 1 + length polls], s')
          \<and> retries s' = int (r + length polls)"
  using assms
proof (induction polls arbitrary: s r)
  case Nil
  then show ?case by simp
next
  case (Cons p polls)
  define f :: "nat \<Rightarrow> int" where "f = (\<lambda>k. if k \<le> 4 then 1000 * 2 ^ k else 30000)"
  obtain now where p: "p = (now, False)"
    using Cons.prems(1) by (cases p) auto
  obtain d s1 where it: "wifi_task_iteration now False s = Some (d, s1)"
    using wifi_task_iteration_total by blast
  from wifi_down_step [OF it] Cons.prems(2)
  have d: "d = Some (f (r + 1))" and r1: "retries s1 = int (Suc r)"
    by (simp_all add: backoff_values f_def)
  from Cons.prems(1) have rest: "\<forall>p \<in> set polls. \<not> snd p" by simp
  from Cons.IH [OF rest r1] obtain s' where
    run: "wifi_task polls s1 = Some (map f [Suc r + 1 ..< Suc r + 1 + length polls], s')"
    and r': "retries s' = int (Suc r + length polls)"
    unfolding f_def by blast
  have "wifi_task (p # polls) s = Some (f (r + 1) # map f [Suc r + 1 ..< Suc r + 1 + length polls], s')"
    by (simp add: p it d run)
  also have "f (r + 1) # map f [Suc r + 1 ..< Suc r + 1 + length polls]
             = map f [r + 1 ..< r + 1 + length (p # polls)]"
    by (simp only: upt_shift list.map length_Cons)
  finally have "wifi_task (p # polls) s = Some (map f [r + 1 ..< r + 1 + length (p # polls)], s')" .
  moreover from r' have "retries s' = int (r + length (p # polls))" by simp
  ultimately show ?case
    unfolding f_def by blast
qed

section \<open>The pump task\<close>

lemma run_steps_append: "run_steps (fs @ gs) s = run_steps fs s \<bind> run_steps gs"
proof (induction fs arbitrary: s)
  case Nil
  show ?case by simp
next
  case (Cons f fs)
  then show ?case by (cases "f s") simp_all
qed

lemma vTaskDelay_Some:
  "vTaskDelay now ms others s = Some (t, s') \<longleftrightarrow> t = now + of_nat ms \<and> other_tasks others s = Some s'"
  by (auto simp: vTaskDelay_def)

lemma command_taken_eq:
  assumes "pending_commands s = command # rest"
  shows "s\<lparr>pump_command_queue := (pump_command_queue s)\<lparr>items := rest\<rparr>\<rparr> = command_taken s"
  using assms by (simp add: command_taken_def)

lemma command_taken_facts:
  assumes "pending_commands s = command # rest"
  shows "pending_commands (command_taken s) = rest"
    and "capacity (pump_command_queue (command_taken s)) = capacity (pump_command_queue s)"
    and "count_event name (command_taken s) = count_event name s"
    and "log_queue (start_logged now (command_taken s)) = log_queue (start_logged now s)"
    and "pump_state (command_taken s) = pump_state s"
    and "mutex_held (command_taken s) = mutex_held s"
  using assms
  by (simp_all add: command_taken_def pending_commands_def count_event_def log_events_def
        start_logged_def)

lemma pump_task_iteration_command:
  assumes "pending_commands s = True # rest"
  shows "pump_task_iteration now dwell idle s =
           run_steps (pump_cycle_steps now dwell) (command_taken s) \<bind> vTaskDelay (now + 5000) 100 idle"
proof -
  have "pump_task_iteration now dwell idle s =
          pump_start now (command_taken s) \<bind> (\<lambda>s1. vTaskDelay now 5000 dwell s1 \<bind>
            (\<lambda>(t, s2). pump_stop t s2 \<bind> vTaskDelay t 100 idle))"
    using assms command_taken_eq [OF assms]
    by (simp add: pump_task_iteration_def xQueueReceive_0 pending_commands_def)
  also have "\<dots> = pump_start now (command_taken s) \<bind> (\<lambda>s1. other_tasks dwell s1 \<bind>
            (\<lambda>s2. pump_stop (now + 5000) s2 \<bind> vTaskDelay (now + 5000) 100 idle))"
    by (rule arg_cong [where f = "\<lambda>f. pump_start now (command_taken s) \<bind> f"], rule ext)
       (simp add: vTaskDelay_def map_option_case split: option.splits)
  also have "\<dots> = run_steps (pump_cycle_steps now dwell) (command_taken s)
                     \<bind> vTaskDelay (now + 5000) 100 idle"
    by (simp add: pump_cycle_steps_def run_steps_append pump_start_def pump_stop_def)
  finally show ?thesis .
qed

lemma pump_task_iteration_total: "\<exists>t s'. pump_task_iteration now dwell idle s = Some (t, s')"
proof (cases "items (pump_command_queue s)")
  case Nil
  then show ?thesis
    using other_tasks_total [of idle s]
    by (auto simp: pump_task_iteration_def xQueueReceive_0 vTaskDelay_def)
next
  case (Cons command rest)
  let ?s0 = "s\<lparr>pump_command_queue := (pump_command_queue s)\<lparr>items := rest\<rparr>\<rparr>"
  show ?thesis
  proof (cases command)
    case False
    with Cons show ?thesis
      using other_tasks_total [of idle ?s0]
      by (auto simp: pump_task_iteration_def xQueueReceive_0 vTaskDelay_def)
  next
    case True
    obtain s1 where s1: "pump_start now ?s0 = Some s1"
      by (simp add: pump_start_eq)
    obtain s2 where s2: "other_tasks dwell s1 = Some s2"
      using other_tasks_total by blast
    obtain s3 where s3: "pump_stop (now + 5000) s2 = Some s3"
      by (simp add: pump_stop_eq)
    obtain s4 where s4: "other_tasks idle s3 = Some s4"
      using other_tasks_total by blast
    from Cons True s1 s2 s3 s4 show ?thesis
      by (simp add: pump_task_iteration_def xQueueReceive_0 vTaskDelay_def)
  qed
qed

lemma pump_iteration_activation:
  assumes "pending_commands s = True # rest"
  shows "\<exists>s1 s2 s3 s'.
           pump_start now (command_taken s) = Some s1
         \<and> other_tasks dwell s1 = Some s2
         \<and> pump_stop (now + 5000) s2 = Some s3
         \<and> other_tasks idle s3 = Some s'
         \<and> pump_task_iteration now dwell idle s = Some (now + 5100, s')"
proof -
  obtain s1 where s1: "pump_start now (command_taken s) = Some s1"
    by (simp add: pump_start_eq)
  obtain s2 where s2: "other_tasks dwell s1 = Some s2"
    using other_tasks_total by blast
  obtain s3 where s3: "pump_stop (now + 5000) s2 = Some s3"
    by (simp add: pump_stop_eq)
  obtain s4 where s4: "other_tasks idle s3 = Some s4"
    using other_tasks_total by blast
  from assms s1 s2 s3 s4 command_taken_eq [OF assms]
  have "pump_task_iteration now dwell idle s = Some (now + 5100, s4)"
    by (simp add: pump_task_iteration_def xQueueReceive_0 vTaskDelay_def pending_commands_def)
  with s1 s2 s3 s4 show ?thesis by blast
qed

lemma pump_start_facts:
  assumes "pump_start now s = Some s'"
  shows "pending_commands s' = pending_commands s"
    and "capacity (pump_command_queue s') = capacity (pump_command_queue s)"
    and "count_event ''PUMP_MANUAL_START'' s' \<le> count_event ''PUMP_MANUAL_START'' s + 1"
    and "pump_active (pump_state s')" and "last_change (pump_state s') = now"
    and "status (pump_state s') = ''MANUAL''" and "relay_pin s' = Some relay_energized"
    and "log_queue s' = log_queue (start_logged now s)"
  using assms
  by (auto simp: pump_start_eq start_logged_def pending_commands_def count_event_def log_events_def
           split: if_splits)

lemma pump_stop_facts:
  assumes "pump_stop now s = Some s'"
  shows "pending_commands s' = pending_commands s"
    and "capacity (pump_command_queue s') = capacity (pump_command_queue s)"
    and "count_event ''PUMP_MANUAL_START'' s' = count_event ''PUMP_MANUAL_START'' s"
    and "\<not> pump_active (pump_state s')" and "last_change (pump_state s') = now"
    and "status (pump_state s') = ''IDLE''" and "relay_pin s' = Some relay_deenergized"
  using assms
  by (auto simp: pump_stop_eq pending_commands_def count_event_def log_events_def split: if_splits)

lemma manual_requests_append:
  "manual_requests (xs @ ys) = manual_requests xs + manual_requests ys"
  by (simp add: manual_requests_def)

lemma pump_iteration_summary:
  assumes "pending_commands s = True # rest"
  shows "\<exists>s1 s2 s3 s'.
           pump_start now (command_taken s) = Some s1
         \<and> pump_active (pump_state s1) \<and> status (pump_state s1) = ''MANUAL''
         \<and> last_change (pump_state s1) = now \<and> relay_pin s1 = Some relay_energized
         \<and> log_queue s1 = log_queue (start_logged now s)
         \<and> other_tasks dwell s1 = Some s2
         \<and> pump_state s2 = pump_state s1 \<and> relay_pin s2 = relay_pin s1
         \<and> count_event ''PUMP_MANUAL_START'' s2 \<le> count_event ''PUMP_MANUAL_START'' s1
         \<and> pump_stop (now + 5000) s2 = Some s3
         \<and> other_tasks idle s3 = Some s'
         \<and> pump_task_iteration now dwell idle s = Some (now + 5100, s')
         \<and> \<not> pump_active (pump_state s') \<and> status (pump_state s') = ''IDLE''
         \<and> last_change (pump_state s') = now + 5000
         \<and> relay_pin s' = Some relay_deenergized
         \<and> count_event ''PUMP_MANUAL_START'' s' \<le> count_event ''PUMP_MANUAL_START'' s + 1
         \<and> capacity (pump_command_queue s') = capacity (pump_command_queue s)
         \<and> pending_commands s' =
             rest @ replicate (min (manual_requests (dwell @ idle))
                                   (capacity (pump_command_queue s) - length rest)) True"
proof -
  let ?s0 = "command_taken s"
  let ?c = "capacity (pump_command_queue s) - length rest"
  from pump_iteration_activation [OF assms, of now dwell idle] obtain s1 s2 s3 s' where
    s1: "pump_start now ?s0 = Some s1" and s2: "other_tasks dwell s1 = Some s2"
    and s3: "pump_stop (now + 5000) s2 = Some s3" and s4: "other_tasks idle s3 = Some s'"
    and it: "pump_task_iteration now dwell idle s = Some (now + 5100, s')"
    by blast
  note f1 = pump_start_facts [OF s1] and f2 = other_tasks_frame [OF s2]
    and f3 = pump_stop_facts [OF s3] and f4 = other_tasks_frame [OF s4]
  note p0 = command_taken_facts(1,2) [OF assms]
    and c0 = command_taken_facts(3) [OF assms, of "''PUMP_MANUAL_START''"]
  have p1: "pending_commands s1 = rest" and cap1: "capacity (pump_command_queue s1) = capacity (pump_command_queue s)"
    using f1(1,2) p0 by simp_all
  have p2: "pending_commands s2 = rest @ replicate (min (manual_requests dwell) ?c) True"
    using other_tasks_commands [OF s2] by (simp add: p1 cap1)
  have cap3: "capacity (pump_command_queue s3) = capacity (pump_command_queue s)"
    using f3(2) f2 cap1 by simp
  have p3: "pending_commands s3 = rest @ replicate (min (manual_requests dwell) ?c) True"
    using f3(1) p2 by simp
  have room: "capacity (pump_command_queue s3) - length (pending_commands s3)
              = ?c - min (manual_requests dwell) ?c"
    by (simp add: cap3 p3)
  have "pending_commands s' = pending_commands s3 @
          replicate (min (manual_requests idle) (?c - min (manual_requests dwell) ?c)) True"
    using other_tasks_commands [OF s4] by (simp only: room)
  then have p4: "pending_commands s' = rest @ replicate (min (manual_requests (dwell @ idle)) ?c) True"
    by (simp only: p3 append_assoc replicate_min_step manual_requests_append)
  have st1: "pump_active (pump_state s1)" "status (pump_state s1) = ''MANUAL''"
    "last_change (pump_state s1) = now" "relay_pin s1 = Some relay_energized"
    by (rule f1(4) f1(6) f1(5) f1(7))+
  have lg: "log_queue s1 = log_queue (start_logged now s)"
    using f1(8) command_taken_facts(4) [OF assms, of now] by simp
  have st2: "pump_state s2 = pump_state s1" "relay_pin s2 = relay_pin s1"
    using f2 by simp_all
  have c2: "count_event ''PUMP_MANUAL_START'' s2 \<le> count_event ''PUMP_MANUAL_START'' s1"
    by (rule other_tasks_starts [OF s2])
  have fin: "\<not> pump_active (pump_state s')" "status (pump_state s') = ''IDLE''"
    "last_change (pump_state s') = now + 5000" "relay_pin s' = Some relay_deenergized"
    using f4 f3(4-7) by simp_all
  have "count_event ''PUMP_MANUAL_START'' s' \<le> count_event ''PUMP_MANUAL_START'' s3"
    by (rule other_tasks_starts [OF s4])
  also have "\<dots> = count_event ''PUMP_MANUAL_START'' s2"
    by (rule f3(3))
  also have "\<dots> \<le> count_event ''PUMP_MANUAL_START'' s1"
    by (rule c2)
  also have "\<dots> \<le> count_event ''PUMP_MANUAL_START'' s + 1"
    using f1(3) c0 by simp
  finally have cnt: "count_event ''PUMP_MANUAL_START'' s' \<le> count_event ''PUMP_MANUAL_START'' s + 1" .
  have cap4: "capacity (pump_command_queue s') = capacity (pump_command_queue s)"
    using f4 cap3 by simp
  from s1 st1 lg s2 st2 c2 s3 s4 it fin cnt cap4 p4 show ?thesis
    by blast
qed

section \<open>Setup, call by call\<close>

lemma setup_total:
  "\<exists>s'. setup_fn now s = Some s' \<and> relay_pin s' = Some relay_deenergized
        \<and> tasks s' = tasks s @ [''WiFi'', ''Sensor'', ''Pump'', ''Web'', ''Logger'']"
  by (simp add: setup_fn_def setup_sequence_def send_log_0 pinMode_def digitalWrite_def
        xTaskCreatePinnedToCore_def xQueueCreate_def relay_deenergized_def LOG_QUEUE_SIZE_def)

lemma take_setup_cases:
  fixes n :: nat
  obtains "n = 0" | "n = 1" | "n = 2" | "n = 3" | "n = 4" | "n = 5" | "n = 6" | "n = 7"
    | "n = 8" | "n = 9" | "n = 10" | "n = 11" | "12 \<le> n"
  by atomize_elim arith

lemma setup_prefix_relay:
  assumes "tasks s0 = []" and "relay_pin s0 \<noteq> Some relay_energized"
    and "run_steps (take n (setup_sequence now)) s0 = Some s"
  shows "relay_pin s \<noteq> Some relay_energized \<and> (tasks s \<noteq> [] \<longrightarrow> relay_pin s = Some relay_deenergized)"
proof (cases n rule: take_setup_cases)
  case 13
  then have "take n (setup_sequence now) = setup_sequence now"
    by (simp add: setup_sequence_def)
  with assms(3) have "setup_fn now s0 = Some s"
    by (simp add: setup_fn_def)
  with setup_total [of now s0] show ?thesis
    by (auto simp: relay_deenergized_def relay_energized_def)
qed (use assms in \<open>auto simp: setup_sequence_def send_log_0 pinMode_def digitalWrite_def
        xTaskCreatePinnedToCore_def xQueueCreate_def relay_deenergized_def relay_energized_def
        RELAY_PIN_def ADC_PIN_def\<close>)

section \<open>The claims\<close>

subsection \<open>C1: the mapper on a valid calibration\<close>

text \<open>
  Claim C1, as amended. For every \<open>raw\<close> in \<open>[0,4095]\<close> and every calibration with
  \<open>adc_dry > adc_wet\<close>, \<^verbatim>\<open>map_adc_to_percentage\<close> returns a value in \<open>[0,100]\<close>; it returns 100
  when \<open>raw \<le> adc_wet\<close> and 0 when \<open>raw \<ge> adc_dry\<close>; it does not increase as \<open>raw\<close>
  increases within \<open>[adc_wet, adc_dry]\<close>; and strictly between the references, when
  \<open>adc_dry - adc_wet\<close> is below \<open>2^31\<close> (the \<^verbatim>\<open>int\<close> subtraction does not overflow), it is
  within \<open>3 / 100000\<close> of the linear interpolation
  \<open>100 * (1 - (raw - adc_wet) / (adc_dry - adc_wet))\<close> clamped to \<open>[0,100]\<close>. (The claim as
  stated has the result equal to the interpolation, for every calibration.)
\<close>

theorem map_adc_valid_calibration:
  assumes "sint (adc_wet cfg) < sint (adc_dry cfg)" and "0 \<le> sint raw" and "sint raw \<le> 4095"
  shows "(\<exists>p. map_adc_to_percentage cfg raw = Some p \<and> 0 \<le> p \<and> p \<le> 100)
       \<and> (sint raw \<le> sint (adc_wet cfg) \<longrightarrow> map_adc_to_percentage cfg raw = Some 100)
       \<and> (sint (adc_dry cfg) \<le> sint raw \<longrightarrow> map_adc_to_percentage cfg raw = Some 0)
       \<and> (sint (adc_wet cfg) < sint raw \<and> sint raw < sint (adc_dry cfg)
            \<and> sint (adc_dry cfg) - sint (adc_wet cfg) < 2 ^ 31 \<longrightarrow>
            (\<exists>p. map_adc_to_percentage cfg raw = Some p
                \<and> \<bar>p - linear_interpolation (sint raw) (sint (adc_wet cfg)) (sint (adc_dry cfg))\<bar>
                    \<le> 3 / 100000))
       \<and> (sint (adc_wet cfg) \<le> sint raw \<and> sint raw \<le> sint raw' \<and> sint raw' \<le> sint (adc_dry cfg)
            \<and> sint raw' \<le> 4095 \<longrightarrow>
            (\<exists>p p'. map_adc_to_percentage cfg raw = Some p
                  \<and> map_adc_to_percentage cfg raw' = Some p' \<and> p' \<le> p))"
proof (intro conjI impI)
  show "\<exists>p. map_adc_to_percentage cfg raw = Some p \<and> 0 \<le> p \<and> p \<le> 100"
    by (rule map_adc_total)
next
  assume "sint raw \<le> sint (adc_wet cfg)"
  with assms show "map_adc_to_percentage cfg raw = Some 100"
    by (simp add: map_adc_to_percentage_def map_adc_operands_def)
next
  assume "sint (adc_dry cfg) \<le> sint raw"
  with assms show "map_adc_to_percentage cfg raw = Some 0"
    by (auto simp: map_adc_to_percentage_def map_adc_operands_def)
next
  assume b: "sint (adc_wet cfg) < sint raw \<and> sint raw < sint (adc_dry cfg)
             \<and> sint (adc_dry cfg) - sint (adc_wet cfg) < 2 ^ 31"
  then have fit: "sint (adc_dry cfg) - sint (adc_wet cfg) < 2147483648"
    by simp
  from b have "linear_interpolation (sint raw) (sint (adc_wet cfg)) (sint (adc_dry cfg))
      = 100 * (1 - real_of_int (sint raw - sint (adc_wet cfg))
                   / real_of_int (sint (adc_dry cfg) - sint (adc_wet cfg)))"
    unfolding linear_interpolation_def by (intro linear_inside) simp_all
  with map_adc_error [OF assms(2,3) _ _ fit] b
  show "\<exists>p. map_adc_to_percentage cfg raw = Some p
          \<and> \<bar>p - linear_interpolation (sint raw) (sint (adc_wet cfg)) (sint (adc_dry cfg))\<bar>
              \<le> 3 / 100000"
    by simp
next
  assume h: "sint (adc_wet cfg) \<le> sint raw \<and> sint raw \<le> sint raw' \<and> sint raw' \<le> sint (adc_dry cfg)
             \<and> sint raw' \<le> 4095"
  obtain p where p: "map_adc_to_percentage cfg raw = Some p"
    using map_adc_total [of cfg raw] by blast
  obtain p' where p': "map_adc_to_percentage cfg raw' = Some p'"
    using map_adc_total [of cfg raw'] by blast
  from h assms have "p' \<le> p"
    by (intro map_adc_antimono [OF _ _ _ _ p p']) simp_all
  with p p' show "\<exists>p p'. map_adc_to_percentage cfg raw = Some p
                  \<and> map_adc_to_percentage cfg raw' = Some p' \<and> p' \<le> p"
    by blast
qed

theorem map_adc_valid_calibration_witness:
  "map_adc_to_percentage (config power_on) 1500 = Some 100
   \<and> map_adc_to_percentage (config power_on) 4095 = Some 0
   \<and> (\<exists>p. map_adc_to_percentage (config power_on) 3000 = Some p \<and> \<bar>p - 7300 / 173\<bar> \<le> 3 / 100000)
   \<and> (\<exists>p p'. map_adc_to_percentage (config power_on) 2019 = Some p
          \<and> map_adc_to_percentage (config power_on) 3000 = Some p' \<and> p' \<le> p)"
proof -
  have l: "linear_interpolation 3000 1500 4095 = 7300 / 173"
    by (simp add: linear_interpolation_def constrain_def)
  show ?thesis
    using map_adc_valid_calibration [of "config power_on" 1500 1500]
      map_adc_valid_calibration [of "config power_on" 4095 4095]
      map_adc_valid_calibration [of "config power_on" 3000 3000]
      map_adc_valid_calibration [of "config power_on" 2019 3000]
    by (simp add: default_config_refs l)
qed

text \<open>
  With the default calibration (\<open>adc_dry = 4095\<close>, \<open>adc_wet = 1500\<close>) and \<open>raw = 3000\<close> the
  mapper returns the \<^verbatim>\<open>float\<close> \<open>11061567 / 262144\<close>, and the interpolation is \<open>7300 / 173\<close>.
  With \<open>adc_dry = 2000000000\<close>, \<open>adc_wet = - 2000000000\<close> and \<open>raw = 1000\<close> the mapper returns
  100, and the interpolation is \<open>1999999 / 40000\<close>, a little under 50.
\<close>

theorem map_adc_interpolation_counterexample:
  "sint (adc_wet (config power_on)) = 1500 \<and> sint (adc_dry (config power_on)) = 4095
   \<and> map_adc_to_percentage (config power_on) 3000 = Some (11061567 / 262144)
   \<and> linear_interpolation 3000 1500 4095 = 7300 / 173
   \<and> (11061567 / 262144 :: real) \<noteq> 7300 / 173
   \<and> sint (adc_wet wide_calibration) = - 2000000000 \<and> sint (adc_dry wide_calibration) = 2000000000
   \<and> map_adc_to_percentage wide_calibration 1000 = Some 100
   \<and> linear_interpolation 1000 (- 2000000000) 2000000000 = 1999999 / 40000"
proof -
  have "sint (adc_wet (config power_on)) = 1500" "sint (adc_dry (config power_on)) = 4095"
    by (simp_all add: default_config_refs)
  moreover have "linear_interpolation 3000 1500 4095 = 7300 / 173"
    "linear_interpolation 1000 (- 2000000000) 2000000000 = 1999999 / 40000"
    by (simp_all add: linear_interpolation_def constrain_def)
  moreover have "(11061567 / 262144 :: real) \<noteq> 7300 / 173"
    by simp
  moreover have "sint (adc_wet wide_calibration) = - 2000000000"
    "sint (adc_dry wide_calibration) = 2000000000"
    by (simp_all add: wide_calibration_def)
  ultimately show ?thesis
    using default_value wide_value by blast
qed

subsection \<open>C6: the mapper is total and fails safe\<close>

text \<open>
  Claim C6, as amended. \<^verbatim>\<open>map_adc_to_percentage\<close> is total and fails safe: it always returns
  a number; for \<open>raw\<close> outside \<open>[0,4095]\<close> it returns 0; for a calibration with
  \<open>adc_dry \<le> adc_wet\<close> it returns 0 whatever \<open>raw\<close> is, without reaching the division; and
  the division is never reached with a zero denominator, and is reached with a positive
  one, equal to \<open>adc_dry - adc_wet\<close>, whenever that difference is below \<open>2^31\<close> (the \<^verbatim>\<open>int\<close>
  subtraction does not overflow). (The claim as stated has no negative denominator for
  any calibration.)
\<close>

theorem map_adc_fail_safe:
  "(\<exists>p. map_adc_to_percentage cfg raw = Some p)
   \<and> (sint raw < 0 \<or> 4095 < sint raw \<longrightarrow> map_adc_to_percentage cfg raw = Some 0)
   \<and> (sint (adc_dry cfg) \<le> sint (adc_wet cfg) \<longrightarrow>
        map_adc_to_percentage cfg raw = Some 0 \<and> map_adc_operands cfg raw = Inl 0)
   \<and> (\<forall>num den. map_adc_operands cfg raw = Inr (num, den) \<longrightarrow>
          sint (adc_wet cfg) < sint (adc_dry cfg)
        \<and> den = adc_dry cfg - adc_wet cfg
        \<and> sint den \<noteq> 0 \<and> int_to_float den \<noteq> 0
        \<and> float_div (int_to_float num) (int_to_float den) \<noteq> None
        \<and> (sint (adc_dry cfg) - sint (adc_wet cfg) < 2 ^ 31 \<longrightarrow>
             sint den = sint (adc_dry cfg) - sint (adc_wet cfg) \<and> 0 < sint den))"
proof (intro conjI allI impI)
  show "\<exists>p. map_adc_to_percentage cfg raw = Some p"
    using map_adc_total [of cfg raw] by blast
next
  assume "sint raw < 0 \<or> 4095 < sint raw"
  then show "map_adc_to_percentage cfg raw = Some 0"
    by (auto simp: map_adc_to_percentage_def map_adc_operands_def)
next
  assume "sint (adc_dry cfg) \<le> sint (adc_wet cfg)"
  then show "map_adc_to_percentage cfg raw = Some 0" and "map_adc_operands cfg raw = Inl 0"
    by (auto simp: map_adc_to_percentage_def map_adc_operands_def)
next
  fix num den
  assume "map_adc_operands cfg raw = Inr (num, den)"
  then have cal: "sint (adc_wet cfg) < sint (adc_dry cfg)" and den: "den = adc_dry cfg - adc_wet cfg"
    by (simp_all add: map_adc_operands_Inr)
  from den_nonzero [OF cal] den have nz: "sint den \<noteq> 0"
    by simp
  then have "sint den < 0 \<or> 0 < sint den"
    by auto
  with int_to_float_sign [of den] have fz: "int_to_float den \<noteq> 0"
    by auto
  show "sint (adc_wet cfg) < sint (adc_dry cfg)" by (rule cal)
  show "den = adc_dry cfg - adc_wet cfg" by (rule den)
  show "sint den \<noteq> 0" by (rule nz)
  show "int_to_float den \<noteq> 0" by (rule fz)
  show "float_div (int_to_float num) (int_to_float den) \<noteq> None"
    using fz by (simp add: float_div_def)
  assume "sint (adc_dry cfg) - sint (adc_wet cfg) < 2 ^ 31"
  then have "sint (adc_dry cfg) - sint (adc_wet cfg) < 2147483648"
    by simp
  from sint_diff32_cases(1) [OF cal this] den cal
  show "sint den = sint (adc_dry cfg) - sint (adc_wet cfg)" and "0 < sint den"
    by simp_all
qed

theorem map_adc_fail_safe_witness:
  "map_adc_to_percentage (config power_on) 5000 = Some 0
   \<and> map_adc_to_percentage (config power_on) (- 1) = Some 0
   \<and> map_adc_to_percentage ((config power_on)\<lparr>adc_dry := 1500, adc_wet := 1500\<rparr>) 1500 = Some 0
   \<and> map_adc_operands (config power_on) 3000 = Inr (1500, 2595)
   \<and> int_to_float 2595 \<noteq> 0"
proof -
  have o: "map_adc_operands (config power_on) 3000 = Inr (1500, 2595)"
    by (simp add: map_adc_operands_def default_config_refs)
  have r: "4095 < sint (5000 :: 32 word)" "sint (- 1 :: 32 word) < 0"
    by simp_all
  have e: "sint (adc_dry ((config power_on)\<lparr>adc_dry := 1500, adc_wet := 1500\<rparr>))
           \<le> sint (adc_wet ((config power_on)\<lparr>adc_dry := 1500, adc_wet := 1500\<rparr>))"
    by simp
  from map_adc_fail_safe [of "config power_on" 5000] r(1)
  have a: "map_adc_to_percentage (config power_on) 5000 = Some 0"
    by blast
  from map_adc_fail_safe [of "config power_on" "- 1"] r(2)
  have b: "map_adc_to_percentage (config power_on) (- 1) = Some 0"
    by blast
  from map_adc_fail_safe [of "(config power_on)\<lparr>adc_dry := 1500, adc_wet := 1500\<rparr>" 1500] e
  have c: "map_adc_to_percentage ((config power_on)\<lparr>adc_dry := 1500, adc_wet := 1500\<rparr>) 1500 = Some 0"
    by blast
  from map_adc_fail_safe [of "config power_on" 3000] o
  have d: "int_to_float 2595 \<noteq> 0"
    by blast
  from a b c o d show ?thesis
    by blast
qed

text \<open>
  With \<open>adc_dry = 2000000000\<close>, \<open>adc_wet = - 2000000000\<close> (a calibration with
  \<open>adc_dry > adc_wet\<close>) and \<open>raw = 1000\<close>, the division is reached with the denominator
  \<open>- 294967296\<close>.
\<close>

theorem map_adc_negative_denominator_counterexample:
  "sint (adc_wet wide_calibration) < sint (adc_dry wide_calibration)
   \<and> map_adc_operands wide_calibration 1000 = Inr (2000001000, - 294967296)
   \<and> map_adc_to_percentage wide_calibration 1000 = interpolate 2000001000 (- 294967296)
   \<and> sint (- 294967296 :: 32 word) = - 294967296
   \<and> int_to_float (- 294967296) < 0"
proof -
  have neg: "sint (- 294967296 :: 32 word) = - 294967296"
    by simp
  then have "sint (- 294967296 :: 32 word) < 0"
    by simp
  from int_to_float_sign(2) [OF this] have f: "int_to_float (- 294967296) < 0" .
  have cal: "sint (adc_wet wide_calibration) < sint (adc_dry wide_calibration)"
    by (simp add: wide_calibration_def)
  have "map_adc_to_percentage wide_calibration 1000 = interpolate 2000001000 (- 294967296)"
    by (simp add: map_adc_to_percentage_def wide_operands)
  with cal wide_operands neg f show ?thesis
    by blast
qed

subsection \<open>C5: what the sensor task stores\<close>

text \<open>
  Claim C5. On every cycle of \<^verbatim>\<open>sensor_task\<close>, with the sensor taken as connected when
  \<open>raw\<close> is strictly inside \<open>(100, 4000)\<close>, the reading stored has
  \<open>valid = connected\<close> and \<open>moisture = (if connected then the mapped percentage else 0)\<close>.
  With \<open>adc_dry = 4095\<close> and \<open>adc_wet = 1500\<close>, \<open>raw = 4095\<close> stores an invalid reading
  of moisture 0 and \<open>raw = 1500\<close> a valid reading of moisture 100.
\<close>

theorem sensor_task_cycle_reading:
  "\<exists>s' pct. sensor_task_cycle now raw s = Some s'
      \<and> map_adc_to_percentage (config s) raw = Some pct
      \<and> valid (current_reading s') = (100 < sint raw \<and> sint raw < 4000)
      \<and> moisture (current_reading s') = (if 100 < sint raw \<and> sint raw < 4000 then pct else 0)
      \<and> (adc_dry (config s) = 4095 \<and> adc_wet (config s) = 1500 \<and> raw = 4095 \<longrightarrow>
            \<not> valid (current_reading s') \<and> moisture (current_reading s') = 0)
      \<and> (adc_dry (config s) = 4095 \<and> adc_wet (config s) = 1500 \<and> raw = 1500 \<longrightarrow>
            valid (current_reading s') \<and> moisture (current_reading s') = 100)"
proof -
  obtain pct where pct: "map_adc_to_percentage (config s) raw = Some pct"
    using map_adc_total [of "config s" raw] by blast
  have wet: "adc_dry (config s) = 4095 \<and> adc_wet (config s) = 1500 \<and> raw = 1500 \<Longrightarrow> pct = 100"
    using pct by (simp add: map_adc_to_percentage_def map_adc_operands_def)
  show ?thesis
    using pct wet by (auto simp: sensor_task_cycle_eq send_log_0)
qed

theorem sensor_task_cycle_reading_witness:
  "(\<exists>s'. sensor_task_cycle 3000 4095 booted = Some s'
        \<and> \<not> valid (current_reading s') \<and> moisture (current_reading s') = 0)
   \<and> (\<exists>s'. sensor_task_cycle 3000 1500 booted = Some s'
        \<and> valid (current_reading s') \<and> moisture (current_reading s') = 100)"
  using sensor_task_cycle_reading [of 3000 4095 booted]
    sensor_task_cycle_reading [of 3000 1500 booted]
  by (auto simp: booted_config)

subsection \<open>C10: the manual-pump handler answers 200 whatever the queue does\<close>

text \<open>
  Claim C10. \<^verbatim>\<open>handleManualPump\<close> always answers 200 with status
  \<open>manual_pump_triggered\<close>: the result of the send onto the command queue is ignored, so
  on a full queue the command is dropped (the state is unchanged) and the answer is the
  same; with room the command is appended.
\<close>

theorem handleManualPump_always_200:
  "\<exists>s'. handleManualPump now s =
          Some (\<lparr>code = 200, content_type = ''application/json'',
                  body = [(''status'', JString ''manual_pump_triggered''),
                          (''timestamp'', JNumber now)]\<rparr>, s')
     \<and> (capacity (pump_command_queue s) \<le> length (pending_commands s) \<longrightarrow> s' = s)
     \<and> (length (pending_commands s) < capacity (pump_command_queue s) \<longrightarrow>
           pending_commands s' = pending_commands s @ [True])"
proof (cases "length (items (pump_command_queue s)) < capacity (pump_command_queue s)")
  case True
  then have "xQueueSend (pump_command_queue s) True 0 =
      Posted ((pump_command_queue s)\<lparr>items := items (pump_command_queue s) @ [True]\<rparr>)"
    by (simp add: xQueueSend_def)
  then show ?thesis
    using True by (simp add: handleManualPump_def send_command_def pending_commands_def)
next
  case False
  then have "xQueueSend (pump_command_queue s) True 0 = Dropped"
    by (simp add: xQueueSend_def)
  then show ?thesis
    using False by (simp add: handleManualPump_def send_command_def pending_commands_def)
qed

theorem handleManualPump_always_200_witness:
  "map_option (code \<circ> fst)
     (handleManualPump 7000 (booted\<lparr>pump_command_queue :=
         \<lparr>items = [True, True, True, True, True], capacity = 5\<rparr>\<rparr>)) = Some 200
   \<and> map_option (pending_commands \<circ> snd)
     (handleManualPump 7000 (booted\<lparr>pump_command_queue :=
         \<lparr>items = [True, True, True, True, True], capacity = 5\<rparr>\<rparr>))
       = Some [True, True, True, True, True]
   \<and> map_option (pending_commands \<circ> snd) (handleManualPump 7000 booted) = Some [True]"
  using handleManualPump_always_200 [of 7000 "booted\<lparr>pump_command_queue :=
         \<lparr>items = [True, True, True, True, True], capacity = 5\<rparr>\<rparr>"]
    handleManualPump_always_200 [of 7000 booted]
  by (auto simp: pending_commands_def booted_def)

subsection \<open>C4: the backoff formula\<close>

text \<open>
  Claim C4. A pass of \<^verbatim>\<open>wifi_task\<close> that finds the link down increments \<open>retries\<close> and,
  for the incremented count \<open>retries \<ge> 1\<close>, sleeps
  \<open>min (1000 * 2 ^ min retries 6) 30000\<close> milliseconds before the reconnection attempt.
\<close>

theorem wifi_backoff_formula:
  assumes "0 \<le> retries s"
  shows "\<exists>s' d. wifi_task_iteration now False s = Some (Some d, s')
          \<and> retries s' = retries s + 1 \<and> 1 \<le> retries s'
          \<and> d = min (1000 * 2 ^ nat (min (retries s') 6)) 30000 \<and> d \<le> 30000"
proof -
  have shift: "push_bit (nat (min (retries s + 1) 6)) (1::int) = 2 ^ nat (min (retries s + 1) 6)"
    by (simp add: push_bit_eq_mult)
  show ?thesis
  proof (cases "wifi_connected s")
    case True
    with assms shift show ?thesis
      by (simp add: wifi_task_iteration_def send_log_0 Let_def)
  next
    case False
    with assms shift show ?thesis
      by (simp add: wifi_task_iteration_def Let_def)
  qed
qed

theorem wifi_backoff_formula_witness:
  "map_option fst (wifi_task_iteration 100 False (booted\<lparr>retries := 2\<rparr>)) = Some (Some 8000)"
  using wifi_backoff_formula [of "booted\<lparr>retries := 2\<rparr>" 100]
  by auto

subsection \<open>C3: the sequence of backoff delays\<close>

text \<open>
  Claim C3, as amended. Over a run of consecutive passes of \<^verbatim>\<open>wifi_task\<close> that find the
  link down, begun with \<open>retries = 0\<close>, the backoff delays slept before the reconnection
  attempts are 2000, 4000, 8000, 16000 milliseconds for \<open>retries = 1, 2, 3, 4\<close> and 30000
  milliseconds for every \<open>retries \<ge> 5\<close>. (The claim as stated begins the sequence at 1000.)
\<close>

theorem wifi_backoff_sequence:
  assumes "retries s = 0" and "\<forall>p \<in> set polls. \<not> snd p"
  shows "\<exists>s'. wifi_task polls s =
            Some (map (\<lambda>k. if k \<le> 4 then 1000 * 2 ^ k else 30000) [1 ..< Suc (length polls)], s')
          \<and> retries s' = int (length polls)"
  using wifi_task_down [OF assms(2), of s 0] assms(1) by simp

theorem wifi_backoff_sequence_witness:
  "map_option fst (wifi_task [(0, False), (2100, False), (6200, False), (14300, False),
                              (30400, False), (60500, False), (90600, False)] booted)
     = Some [2000, 4000, 8000, 16000, 30000, 30000, 30000]"
proof -
  have r: "retries booted = 0"
    by (simp add: booted_def power_on_def)
  show ?thesis
    using wifi_backoff_sequence [OF r, of "[(0, False), (2100, False), (6200, False), (14300, False),
                              (30400, False), (60500, False), (90600, False)]"]
    by (auto simp: upt_conv_Cons)
qed

text \<open>
  Seven consecutive passes with the link down do not sleep 1000, 2000, 4000, 8000, 16000,
  30000, 30000 milliseconds.
\<close>

theorem wifi_first_backoff_counterexample:
  "map_option fst (wifi_task [(0, False), (2100, False), (6200, False), (14300, False), (30400, False),
                              (60500, False), (90600, False)] booted)
     \<noteq> Some [1000, 2000, 4000, 8000, 16000, 30000, 30000]"
  by (simp add: wifi_task_iteration_def send_log_0 Let_def booted_def power_on_def)

subsection \<open>C7: the invariant of the pump state\<close>

text \<open>
  Claim C7 has every reachable \<^verbatim>\<open>pump_state\<close> satisfy \<open>pump_active \<longrightarrow> status \<noteq> IDLE\<close>. The
  activation writes \<^verbatim>\<open>pump_active\<close> before \<^verbatim>\<open>status\<close>, inside a critical section that the
  readers \<^verbatim>\<open>handleGetState\<close> and \<^verbatim>\<open>broadcastState\<close> do not enter. On the booted system with
  one pending command, a pass of \<^verbatim>\<open>pump_task\<close> begun at 1000 ms runs the statements of
  \<open>pump_cycle_steps\<close>; after the fourth of them (the write of \<^verbatim>\<open>pump_active\<close>) the mutex is
  held by \<^verbatim>\<open>pump_task\<close>, and \<^verbatim>\<open>handleGetState\<close> reports the pump as active with status
  \<open>IDLE\<close> and the old time of change.
\<close>

theorem pump_state_unguarded_read:
  "pump_task_iteration 1000 [] [] (booted\<lparr>pump_command_queue := \<lparr>items = [True], capacity = 5\<rparr>\<rparr>)
     = run_steps (pump_cycle_steps 1000 []) booted \<bind> vTaskDelay 6000 100 []
   \<and> map_option mutex_held (run_steps (take 4 (pump_cycle_steps 1000 [])) booted) = Some True
   \<and> map_option (\<lambda>s. pump_active (pump_state s) \<and> status (pump_state s) = ''IDLE'')
        (run_steps (take 4 (pump_cycle_steps 1000 [])) booted) = Some True
   \<and> map_option handleGetState_pump (run_steps (take 4 (pump_cycle_steps 1000 [])) booted)
       = Some [(''active'', JBool True), (''status'', JString ''IDLE''),
               (''retry_count'', JNumber 0), (''last_change'', JNumber 0)]
   \<and> map_option handleGetState_pump (run_steps (take 7 (pump_cycle_steps 1000 [])) booted)
       = Some [(''active'', JBool True), (''status'', JString ''MANUAL''),
               (''retry_count'', JNumber 0), (''last_change'', JNumber 1000)]"
proof -
  let ?s = "booted\<lparr>pump_command_queue := \<lparr>items = [True], capacity = 5\<rparr>\<rparr>"
  have p: "pending_commands ?s = True # []"
    by (simp add: pending_commands_def)
  have c: "command_taken ?s = booted"
    by (simp add: command_taken_def pending_commands_def booted_def)
  have a: "pump_task_iteration 1000 [] [] ?s
             = run_steps (pump_cycle_steps 1000 []) booted \<bind> vTaskDelay 6000 100 []"
    using pump_task_iteration_command [OF p, of 1000 "[]" "[]"] by (simp add: c)
  have b: "run_steps (take 4 (pump_cycle_steps 1000 [])) booted =
             Some ((start_logged 1000 booted)
                   \<lparr>relay_pin := Some relay_energized, mutex_held := True,
                    pump_state := (pump_state booted)\<lparr>pump_active := True\<rparr>\<rparr>)"
    by (simp add: pump_cycle_steps_def pump_start_steps_def send_log_0 start_logged_def
          digitalWrite_def xSemaphoreTake_def relay_energized_def)
  have d: "run_steps (take 7 (pump_cycle_steps 1000 [])) booted = pump_start 1000 booted"
    by (simp add: pump_cycle_steps_def pump_start_def pump_start_steps_def)
  have st: "pump_state booted = \<lparr>pump_active = False, retry_count = 0, status = ''IDLE'', last_change = 0\<rparr>"
    by (simp add: booted_def power_on_def)
  show ?thesis
    apply (simp only: a b d pump_start_eq)
    apply (simp add: handleGetState_pump_def st)
    done
qed

subsection \<open>C8: no send onto the log queue waits\<close>

text \<open>
  Claim C8. Every send onto the log queue is made with a wait of 0 ticks: it never puts
  the producer into the Blocked state, and on a full queue the entry is dropped and the
  queue left as it was. So a pass of \<^verbatim>\<open>sensor_task\<close> always completes and stores its
  reading, and the activation, the deactivation, a pass of \<^verbatim>\<open>wifi_task\<close>,
  \<^verbatim>\<open>setup\<close> and a pass of \<^verbatim>\<open>pump_task\<close> always complete.
\<close>

theorem log_enqueue_never_blocks:
  "xQueueSend q item 0 \<noteq> Send_Waits
   \<and> (capacity q \<le> length (items q) \<longrightarrow> xQueueSend q item 0 = Dropped)
   \<and> (\<exists>s'. sensor_task_cycle now raw s = Some s'
          \<and> timestamp (current_reading s') = now \<and> raw_adc (current_reading s') = raw
          \<and> (capacity (log_queue s) \<le> length (items (log_queue s)) \<longrightarrow> log_queue s' = log_queue s))
   \<and> (\<exists>s'. pump_start now s = Some s'
          \<and> (capacity (log_queue s) \<le> length (items (log_queue s)) \<longrightarrow> log_queue s' = log_queue s))
   \<and> (\<exists>s'. pump_stop now s = Some s'
          \<and> (capacity (log_queue s) \<le> length (items (log_queue s)) \<longrightarrow> log_queue s' = log_queue s))
   \<and> (\<exists>d s'. wifi_task_iteration now link_up s = Some (d, s')
          \<and> (capacity (log_queue s) \<le> length (items (log_queue s)) \<longrightarrow> log_queue s' = log_queue s))
   \<and> (\<exists>s'. setup_fn now s = Some s')
   \<and> (\<exists>t s'. pump_task_iteration now dwell idle s = Some (t, s'))"
proof (intro conjI)
  show "xQueueSend q item 0 \<noteq> Send_Waits"
    by (simp add: xQueueSend_def)
  show "capacity q \<le> length (items q) \<longrightarrow> xQueueSend q item 0 = Dropped"
    by (simp add: xQueueSend_def)
  show "\<exists>s'. sensor_task_cycle now raw s = Some s'
          \<and> timestamp (current_reading s') = now \<and> raw_adc (current_reading s') = raw
          \<and> (capacity (log_queue s) \<le> length (items (log_queue s)) \<longrightarrow> log_queue s' = log_queue s)"
    using map_adc_total [of "config s" raw]
    by (auto simp: sensor_task_cycle_eq send_log_0)
  show "\<exists>s'. pump_start now s = Some s'
          \<and> (capacity (log_queue s) \<le> length (items (log_queue s)) \<longrightarrow> log_queue s' = log_queue s)"
    by (simp add: pump_start_eq start_logged_def)
  show "\<exists>s'. pump_stop now s = Some s'
          \<and> (capacity (log_queue s) \<le> length (items (log_queue s)) \<longrightarrow> log_queue s' = log_queue s)"
    by (simp add: pump_stop_eq)
  show "\<exists>d s'. wifi_task_iteration now link_up s = Some (d, s')
          \<and> (capacity (log_queue s) \<le> length (items (log_queue s)) \<longrightarrow> log_queue s' = log_queue s)"
    by (simp add: wifi_task_iteration_def send_log_0 Let_def)
  show "\<exists>s'. setup_fn now s = Some s'"
    using setup_total [of now s] by blast
  show "\<exists>t s'. pump_task_iteration now dwell idle s = Some (t, s')"
    by (rule pump_task_iteration_total)
qed

theorem log_enqueue_never_blocks_witness:
  "xQueueSend (log_queue log_full) (hd (items (log_queue booted))) 0 = Dropped
   \<and> (\<exists>s'. sensor_task_cycle 3000 1800 log_full = Some s'
          \<and> timestamp (current_reading s') = 3000 \<and> raw_adc (current_reading s') = 1800
          \<and> log_queue s' = log_queue log_full)
   \<and> (\<exists>s'. pump_start 3000 log_full = Some s' \<and> log_queue s' = log_queue log_full)
   \<and> (\<exists>s'. pump_stop 3000 log_full = Some s' \<and> log_queue s' = log_queue log_full)
   \<and> (\<exists>d s'. wifi_task_iteration 3000 True log_full = Some (d, s') \<and> log_queue s' = log_queue log_full)"
proof -
  have full: "capacity (log_queue log_full) \<le> length (items (log_queue log_full))"
    by (simp add: log_full_def)
  from log_enqueue_never_blocks [of "log_queue log_full" "hd (items (log_queue booted))" 3000 1800
      log_full True "[]" "[]"] full
  show ?thesis
    by simp
qed

subsection \<open>C9: the relay is de-energized before any task exists\<close>

text \<open>
  Claim C9. From a power-on state with no task and a relay that is not energized, after
  every prefix of the calls of \<^verbatim>\<open>setup\<close> the relay is not energized, and as soon as one
  task exists the relay output is at the de-energized level; \<^verbatim>\<open>setup\<close> ends with the five
  tasks created and the relay de-energized. Afterwards a pass of \<^verbatim>\<open>pump_task\<close> that finds
  no command, and any step of another task, leave the relay output as it is.
\<close>

theorem setup_relay_safe:
  assumes "tasks s0 = []" and "relay_pin s0 \<noteq> Some relay_energized"
  shows "(\<forall>n s. run_steps (take n (setup_sequence now)) s0 = Some s \<longrightarrow>
            relay_pin s \<noteq> Some relay_energized
            \<and> (tasks s \<noteq> [] \<longrightarrow> relay_pin s = Some relay_deenergized))
       \<and> (\<exists>s. setup_fn now s0 = Some s \<and> relay_pin s = Some relay_deenergized
               \<and> tasks s = [''WiFi'', ''Sensor'', ''Pump'', ''Web'', ''Logger''])
       \<and> relay_deenergized \<noteq> relay_energized
       \<and> (\<forall>s s'. pending_commands s = [] \<and> pump_task_iteration t dwell idle s = Some (t', s') \<longrightarrow>
            relay_pin s' = relay_pin s)
       \<and> (\<forall>s s'. env_step e s = Some s' \<longrightarrow> relay_pin s' = relay_pin s)"
proof (intro conjI allI impI)
  fix n s
  assume "run_steps (take n (setup_sequence now)) s0 = Some s"
  from setup_prefix_relay [OF assms this]
  show "relay_pin s \<noteq> Some relay_energized" and "tasks s \<noteq> [] \<Longrightarrow> relay_pin s = Some relay_deenergized"
    by simp_all
next
  show "\<exists>s. setup_fn now s0 = Some s \<and> relay_pin s = Some relay_deenergized
               \<and> tasks s = [''WiFi'', ''Sensor'', ''Pump'', ''Web'', ''Logger'']"
    using setup_total [of now s0] assms(1) by simp
next
  show "relay_deenergized \<noteq> relay_energized"
    by (simp add: relay_deenergized_def relay_energized_def)
next
  fix s s'
  assume "pending_commands s = [] \<and> pump_task_iteration t dwell idle s = Some (t', s')"
  then have "other_tasks idle s = Some s'"
    by (auto simp: pump_task_iteration_def xQueueReceive_0 pending_commands_def vTaskDelay_Some)
  from other_tasks_frame [OF this] show "relay_pin s' = relay_pin s"
    by simp
next
  fix s s'
  assume "env_step e s = Some s'"
  then show "relay_pin s' = relay_pin s"
    by (rule env_step_frame(2))
qed

theorem setup_relay_safe_witness:
  "tasks power_on = [] \<and> relay_pin power_on = None
   \<and> (\<exists>s. run_steps (take 7 (setup_sequence 0)) power_on = Some s
          \<and> tasks s = [''WiFi''] \<and> relay_pin s = Some HIGH)
   \<and> (\<exists>s. run_steps (take 2 (setup_sequence 0)) power_on = Some s
          \<and> tasks s = [] \<and> relay_pin s \<noteq> Some LOW)
   \<and> (\<exists>s. setup_fn 0 power_on = Some s \<and> relay_pin s = Some HIGH)
   \<and> (\<exists>t s. pump_task_iteration 1000 [Sensor_sample 1050 1800] [] booted = Some (t, s)
          \<and> relay_pin s = Some HIGH)"
proof -
  have pre: "tasks power_on = []" "relay_pin power_on \<noteq> Some relay_energized"
    and none: "relay_pin power_on = None"
    by (simp_all add: power_on_def)
  obtain t s where it: "pump_task_iteration 1000 [Sensor_sample 1050 1800] [] booted = Some (t, s)"
    using pump_task_iteration_total by blast
  note safe = setup_relay_safe [OF pre, of 0 1000 "[Sensor_sample 1050 1800]" "[]" t
      "Sensor_sample 1050 1800"]
  have lv: "relay_deenergized = HIGH" "relay_energized = LOW"
    by (simp_all add: relay_deenergized_def relay_energized_def RELAY_ACTIVE_HIGH_def)
  obtain s7 where s7: "run_steps (take 7 (setup_sequence 0)) power_on = Some s7"
    and t7: "tasks s7 = [''WiFi'']"
    by (simp add: setup_sequence_def pinMode_def digitalWrite_def xTaskCreatePinnedToCore_def
          power_on_def)
  obtain s2 where s2: "run_steps (take 2 (setup_sequence 0)) power_on = Some s2"
    and t2: "tasks s2 = []"
    by (simp add: setup_sequence_def pinMode_def power_on_def)
  from safe s7 t7 have r7: "relay_pin s7 = Some HIGH"
    by (simp add: lv)
  from safe s2 have r2: "relay_pin s2 \<noteq> Some LOW"
    by (simp add: lv)
  from safe have up: "\<exists>s. setup_fn 0 power_on = Some s \<and> relay_pin s = Some HIGH"
    by (auto simp: lv)
  have "pending_commands booted = []" "relay_pin booted = Some HIGH"
    by (simp_all add: pending_commands_def booted_def)
  with safe it have "relay_pin s = Some HIGH"
    by simp
  with pre(1) none s7 t7 r7 s2 t2 r2 up it show ?thesis
    by blast
qed

subsection \<open>C2: commands that arrive during the dwell\<close>

text \<open>
  Claim C2, as amended. When \<^verbatim>\<open>pump_task\<close> takes an activation command at time \<open>now\<close>, the
  pass is the activation (pump active, relay energized, one \<open>PUMP_MANUAL_START\<close> sent to the
  log queue), the dwell, the deactivation at \<open>now + 5000\<close> and the closing delay, in this
  order, and whatever arrives during the dwell: the pump state and the relay stay as the
  activation set them until the dwell ends, the dwell adds no \<open>PUMP_MANUAL_START\<close>, the
  deactivation happens at \<open>now + 5000\<close> and the pass ends at \<open>now + 5100\<close> (the dwell is
  neither extended nor restarted), and the pass adds at most one \<open>PUMP_MANUAL_START\<close> to the
  log queue. The commands that arrive during the pass are not discarded: they are appended
  to the command queue as far as its capacity allows, and when one arrived during the dwell
  and the queue had room, the next pass takes it and runs a further activation, with its
  own \<open>PUMP_MANUAL_START\<close>, dwell and deactivation. (The claim as stated has such commands
  ignored.)
\<close>

theorem pump_dwell_commands:
  assumes "pending_commands s = True # rest"
  shows "\<exists>s1 s2 s3 s'.
           pump_start now (command_taken s) = Some s1
         \<and> pump_active (pump_state s1) \<and> status (pump_state s1) = ''MANUAL''
         \<and> last_change (pump_state s1) = now \<and> relay_pin s1 = Some relay_energized
         \<and> log_queue s1 = log_queue (start_logged now s)
         \<and> other_tasks dwell s1 = Some s2
         \<and> pump_state s2 = pump_state s1 \<and> relay_pin s2 = relay_pin s1
         \<and> count_event ''PUMP_MANUAL_START'' s2 \<le> count_event ''PUMP_MANUAL_START'' s1
         \<and> pump_stop (now + 5000) s2 = Some s3
         \<and> other_tasks idle s3 = Some s'
         \<and> pump_task_iteration now dwell idle s = Some (now + 5100, s')
         \<and> \<not> pump_active (pump_state s') \<and> status (pump_state s') = ''IDLE''
         \<and> last_change (pump_state s') = now + 5000
         \<and> relay_pin s' = Some relay_deenergized
         \<and> count_event ''PUMP_MANUAL_START'' s' \<le> count_event ''PUMP_MANUAL_START'' s + 1
         \<and> pending_commands s' =
             rest @ replicate (min (manual_requests (dwell @ idle))
                                   (capacity (pump_command_queue s) - length rest)) True
         \<and> (0 < manual_requests dwell \<and> rest = [] \<and> 0 < capacity (pump_command_queue s) \<longrightarrow>
               (\<exists>r t1 t2 t3 s''.
                     pending_commands s' = True # r
                   \<and> pump_start (now + 5100) (command_taken s') = Some t1
                   \<and> pump_active (pump_state t1) \<and> status (pump_state t1) = ''MANUAL''
                   \<and> last_change (pump_state t1) = now + 5100
                   \<and> relay_pin t1 = Some relay_energized
                   \<and> log_queue t1 = log_queue (start_logged (now + 5100) s')
                   \<and> other_tasks dwell' t1 = Some t2
                   \<and> pump_state t2 = pump_state t1 \<and> relay_pin t2 = relay_pin t1
                   \<and> pump_stop (now + 10100) t2 = Some t3
                   \<and> other_tasks idle' t3 = Some s''
                   \<and> pump_task_iteration (now + 5100) dwell' idle' s' = Some (now + 10200, s'')
                   \<and> last_change (pump_state s'') = now + 10100))"
proof -
  let ?c = "capacity (pump_command_queue s) - length rest"
  let ?k = "min (manual_requests (dwell @ idle)) ?c"
  from pump_iteration_summary [OF assms, of now dwell idle] obtain s1 s2 s3 s' where
    mid: "pump_start now (command_taken s) = Some s1"
      "pump_active (pump_state s1)" "status (pump_state s1) = ''MANUAL''"
      "last_change (pump_state s1) = now" "relay_pin s1 = Some relay_energized"
      "log_queue s1 = log_queue (start_logged now s)"
      "other_tasks dwell s1 = Some s2"
      "pump_state s2 = pump_state s1" "relay_pin s2 = relay_pin s1"
      "count_event ''PUMP_MANUAL_START'' s2 \<le> count_event ''PUMP_MANUAL_START'' s1"
      "pump_stop (now + 5000) s2 = Some s3"
      "other_tasks idle s3 = Some s'"
    and fin: "pump_task_iteration now dwell idle s = Some (now + 5100, s')"
      "\<not> pump_active (pump_state s')" "status (pump_state s') = ''IDLE''"
      "last_change (pump_state s') = now + 5000" "relay_pin s' = Some relay_deenergized"
      "count_event ''PUMP_MANUAL_START'' s' \<le> count_event ''PUMP_MANUAL_START'' s + 1"
    and pend: "pending_commands s' = rest @ replicate ?k True"
    by blast
  have later: "\<exists>r t1 t2 t3 s''.
                     pending_commands s' = True # r
                   \<and> pump_start (now + 5100) (command_taken s') = Some t1
                   \<and> pump_active (pump_state t1) \<and> status (pump_state t1) = ''MANUAL''
                   \<and> last_change (pump_state t1) = now + 5100
                   \<and> relay_pin t1 = Some relay_energized
                   \<and> log_queue t1 = log_queue (start_logged (now + 5100) s')
                   \<and> other_tasks dwell' t1 = Some t2
                   \<and> pump_state t2 = pump_state t1 \<and> relay_pin t2 = relay_pin t1
                   \<and> pump_stop (now + 10100) t2 = Some t3
                   \<and> other_tasks idle' t3 = Some s''
                   \<and> pump_task_iteration (now + 5100) dwell' idle' s' = Some (now + 10200, s'')
                   \<and> last_change (pump_state s'') = now + 10100"
    if h: "0 < manual_requests dwell \<and> rest = [] \<and> 0 < capacity (pump_command_queue s)"
  proof -
    from h have "0 < ?k"
      by (simp add: manual_requests_append)
    then obtain j where "?k = Suc j"
      by (cases ?k) simp_all
    with pend h have q: "pending_commands s' = True # replicate j True"
      by simp
    from pump_iteration_summary [OF q, of "now + 5100" dwell' idle'] obtain t1 t2 t3 s'' where
      "pump_start (now + 5100) (command_taken s') = Some t1"
      "pump_active (pump_state t1)" "status (pump_state t1) = ''MANUAL''"
      "last_change (pump_state t1) = now + 5100" "relay_pin t1 = Some relay_energized"
      "log_queue t1 = log_queue (start_logged (now + 5100) s')"
      "other_tasks dwell' t1 = Some t2"
      "pump_state t2 = pump_state t1" "relay_pin t2 = relay_pin t1"
      "pump_stop (now + 5100 + 5000) t2 = Some t3"
      "other_tasks idle' t3 = Some s''"
      "pump_task_iteration (now + 5100) dwell' idle' s' = Some (now + 5100 + 5100, s'')"
      "last_change (pump_state s'') = now + 5100 + 5000"
      by blast
    with q show ?thesis
      by (auto simp: add.assoc)
  qed
  from mid fin pend later show ?thesis
    by blast
qed

theorem pump_dwell_commands_witness:
  "\<exists>s1 s'. pump_start 1000 booted = Some s1
        \<and> pump_active (pump_state s1) \<and> relay_pin s1 = Some LOW
        \<and> pump_task_iteration 1000 [Http_manual_pump 3000] []
            (booted\<lparr>pump_command_queue := \<lparr>items = [True], capacity = 5\<rparr>\<rparr>) = Some (6100, s')
        \<and> last_change (pump_state s') = 6000
        \<and> pending_commands s' = [True]
        \<and> (\<exists>t1 s''. pump_start 6100 (command_taken s') = Some t1
               \<and> pump_active (pump_state t1) \<and> last_change (pump_state t1) = 6100
               \<and> pump_task_iteration 6100 [] [] s' = Some (11200, s'')
               \<and> last_change (pump_state s'') = 11100)"
proof -
  let ?s = "booted\<lparr>pump_command_queue := \<lparr>items = [True], capacity = 5\<rparr>\<rparr>"
  have p: "pending_commands ?s = True # []"
    by (simp add: pending_commands_def)
  have c: "command_taken ?s = booted"
    by (simp add: command_taken_def pending_commands_def booted_def)
  have m: "manual_requests [Http_manual_pump 3000] = 1"
    by (simp add: manual_requests_def)
  have lv: "relay_energized = LOW"
    by (simp add: relay_energized_def RELAY_ACTIVE_HIGH_def)
  from pump_dwell_commands [OF p, of 1000 "[Http_manual_pump 3000]" "[]" "[]" "[]"]
  show ?thesis
    by (auto simp: m c lv)
qed

text \<open>
  In the scenario above two requests are made, the second during the dwell of the
  first, and the pump is activated twice: the log queue holds two \<open>PUMP_MANUAL_START\<close>
  entries and the second deactivation is at 11100 ms.
\<close>

theorem second_command_counterexample:
  "map_option (log_events \<circ> snd) second_command_scenario =
     Some [''SYSTEM_STARTED'', ''PUMP_MANUAL_START'', ''PUMP_MANUAL_STOP'',
           ''PUMP_MANUAL_START'', ''PUMP_MANUAL_STOP'']
   \<and> map_option (last_change \<circ> pump_state \<circ> snd) second_command_scenario = Some 11100
   \<and> map_option fst second_command_scenario = Some 11200"
proof -
  let ?s1 = "booted\<lparr>pump_command_queue := \<lparr>items = [True], capacity = 5\<rparr>\<rparr>"
  have run: "second_command_scenario = pump_task 1000 [([Http_manual_pump 3000], []), ([], [])] ?s1"
    by (simp add: second_command_scenario_def setup_power_on handleManualPump_eq booted_def)
  have "\<exists>s. pump_task 1000 [([Http_manual_pump 3000], []), ([], [])] ?s1 = Some (11200, s)
          \<and> log_events s = [''SYSTEM_STARTED'', ''PUMP_MANUAL_START'', ''PUMP_MANUAL_STOP'',
                              ''PUMP_MANUAL_START'', ''PUMP_MANUAL_STOP'']
          \<and> last_change (pump_state s) = 11100"
    by (simp add: pump_task_iteration_def xQueueReceive_0 pump_start_eq pump_stop_eq start_logged_def
          vTaskDelay_def handleManualPump_eq log_events_def booted_def)
  with run show ?thesis
    by auto
qed

end
